theory Spec2Isabelle
  imports Main "HOL-Library.Multiset" "HOL-Library.Char_ord" "HOL-Library.List_Lexorder"
begin

chapter \<open>The embedding of the program\<close>

section \<open>Go runtime failures and error values\<close>

text \<open>
  A Go function either returns or panics.  The panics that the modelled code can raise
  are values of \<open>panic\<close>; a function that may panic returns \<open>panic + 'a\<close>.
  A Go \<open>error\<close> is a value; \<open>nil\<close> is \<open>None\<close> of \<open>error option\<close>.  \<open>Errorf\<close> carries the
  message that \<open>fmt.Errorf\<close> formats; \<open>DriverError\<close> stands for an error handed back
  by the database driver.  A Go \<open>int\<close> that only counts rows, lines or loop turns is an
  \<open>int\<close> or \<open>nat\<close> here: none of them comes near the 64-bit bounds.
\<close>

datatype panic =
    DivideByZero
  | MakeSliceCapOutOfRange
  | SliceBoundsOutOfRange
  | NilPointerDereference

datatype error = Errorf string | DriverError string

fun Error :: "error \<Rightarrow> string" where
  "Error (Errorf msg) = msg"
| "Error (DriverError msg) = msg"

section \<open>Strings and table references (package mssql)\<close>

text \<open>
  Go strings are byte sequences; \<open>string\<close> is \<open>char list\<close> and a \<open>char\<close> is a byte.
  \<open>strings.Join\<close> and \<open>strings.Replace(s, old, new, -1)\<close> for a one-byte \<open>old\<close>:
\<close>

fun strings_Join :: "string list \<Rightarrow> string \<Rightarrow> string" where
  "strings_Join [] sep = []"
| "strings_Join [x] sep = x"
| "strings_Join (x # y # ys) sep = x @ sep @ strings_Join (y # ys) sep"

definition replace_char :: "string \<Rightarrow> char \<Rightarrow> string \<Rightarrow> string" where
  "replace_char s old new = concat (map (\<lambda>c. if c = old then new else [c]) s)"

text \<open>
  Modelled from the spec: the identifier and value quoting of the SQL driver's
  \<open>TSQLQuoter\<close> (a library outside this repository).  An identifier is wrapped in square
  brackets with every closing bracket doubled; a string value is wrapped in single quotes
  with every single quote doubled.  The repository's tests fix the results
  \<open>[column]\<close> and \<open>'value'\<close>.
\<close>

definition quoter_ID :: "string \<Rightarrow> string" where
  "quoter_ID name = ''['' @ replace_char name (CHR '']'') '']]'' @ '']''"

definition quoter_Value :: "string \<Rightarrow> string" where
  "quoter_Value v = [CHR 0x27] @ replace_char v (CHR 0x27) [CHR 0x27, CHR 0x27] @ [CHR 0x27]"

text \<open>
  \<^verbatim>\<open>
  type TableRef struct { Schema string; Table string }
  func (t TableRef) String() string {
      quoter := mssql.TSQLQuoter{}
      return fmt.Sprintf("%s.%s", quoter.ID(t.Schema), quoter.ID(t.Table))
  }
  \<close>
\<close>

record TableRef =
  Schema :: string
  Table :: string

definition TableRef_String :: "TableRef \<Rightarrow> string" where
  "TableRef_String t = quoter_ID (Schema t) @ ''.'' @ quoter_ID (Table t)"

text \<open>Decimal rendering of an integer, as the verb \<open>%d\<close> of \<open>fmt\<close> prints it.\<close>

fun nat_dec :: "nat \<Rightarrow> string" where
  "nat_dec n = (if n < 10 then [''0123456789'' ! n]
                else nat_dec (n div 10) @ [''0123456789'' ! (n mod 10)])"

declare nat_dec.simps [simp del]

definition fmt_d :: "int \<Rightarrow> string" where
  "fmt_d i = (if i < 0 then ''-'' @ nat_dec (nat (- i)) else nat_dec (nat i))"

section \<open>Scheduler: \<open>chunkBy\<close> (package cli)\<close>

text \<open>
  \<^verbatim>\<open>
  func chunkBy[T any](items []T, chunkSize int) (chunks [][]T) {
      var _chunks = make([][]T, 0, (len(items)/chunkSize)+1)
      for chunkSize < len(items) {
          items, _chunks = items[chunkSize:], append(_chunks, items[0:chunkSize:chunkSize])
      }
      return append(_chunks, items)
  }
  \<close>
  \<open>chunkSize\<close> is a Go \<open>int\<close>.  The loop test \<open>chunkSize < len(items)\<close> is the first
  test of \<open>chunkLoop\<close>; slicing with a negative bound panics.  A zero \<open>chunkSize\<close> never
  reaches the loop (the division in \<open>make\<close> panics first), so the loop treats it like a
  negative one, which also makes the recursion well-founded.
\<close>

function chunkLoop :: "int \<Rightarrow> 'a list \<Rightarrow> 'a list list \<Rightarrow> panic + 'a list list" where
  "chunkLoop chunkSize items chunks =
     (if chunkSize < int (length items) then
        (if chunkSize \<le> 0 then Inl SliceBoundsOutOfRange
         else chunkLoop chunkSize (drop (nat chunkSize) items)
                (chunks @ [take (nat chunkSize) items]))
      else Inr (chunks @ [items]))"
  by pat_completeness auto
termination
  by (relation "measure (\<lambda>(chunkSize, items, chunks). length items)") auto

declare chunkLoop.simps [simp del]

text \<open>
  Go's integer division truncates towards zero; \<open>len(items)\<close> is never negative, so for a
  negative divisor the quotient is \<open>- (len div (- chunkSize))\<close>.
\<close>

definition go_quot :: "int \<Rightarrow> int \<Rightarrow> int" where
  "go_quot a b = (if 0 \<le> a \<and> b < 0 then - (a div (- b))
                  else if a < 0 \<and> 0 < b then - ((- a) div b)
                  else a div b)"

definition chunkBy :: "'a list \<Rightarrow> int \<Rightarrow> panic + 'a list list" where
  "chunkBy items chunkSize =
     (if chunkSize = 0 then Inl DivideByZero
      else if go_quot (int (length items)) chunkSize + 1 < 0 then Inl MakeSliceCapOutOfRange
      else chunkLoop chunkSize items [])"

section \<open>Copy task: \<open>compareSchemas\<close> (package copy)\<close>







section \<open>Progress monitor (package monitor)\<close>

subsection \<open>Events\<close>

text \<open>
  \<open>Event\<close> is the empty interface: any value may arrive on the channel.  The five event
  structs are the constructors that \<open>Run\<close> dispatches on; \<open>OtherEvent\<close> stands for a value of
  any other dynamic type (also the \<open>nil\<close> received from a closed channel).  The \<open>Err\<close> of an
  \<open>ErrorEvent\<close> may be \<open>nil\<close>.
\<close>

datatype Event =
    ProgressUpdateEvent int TableRef
  | CopyTaskStartedEvent TableRef
  | CopyTaskFinishedEvent TableRef
  | CountUpdateEvent int TableRef
  | ErrorEvent TableRef "error option"
  | OtherEvent

subsection \<open>Progress reporters\<close>

text \<open>
  The progress bar is an object of an outside library.  Its state is kept as the
  description it was created with and the calls made on it since; the text that
  \<open>bar.String()\<close> yields is kept symbolic in the output (\<open>BarString\<close>).
\<close>

datatype bar_call = Add int | ChangeMax int

record ProgressBar =
  description :: string
  calls :: "bar_call list"

text \<open>The field \<open>done\<close> of the source is \<open>isDone\<close> here (\<open>done\<close> is a keyword).\<close>

record ProgressReporter =
  bar :: ProgressBar
  RowTotal :: int
  RowsCopied :: int
  reporterTable :: TableRef
  isDone :: bool
  err :: "error option"

definition NewProgressReporter :: "TableRef \<Rightarrow> ProgressReporter" where
  "NewProgressReporter table =
     \<lparr> bar = \<lparr> description = TableRef_String table, calls = [] \<rparr>,
       RowTotal = 0, RowsCopied = 0, reporterTable = table, isDone = False, err = None \<rparr>"

definition Update :: "ProgressReporter \<Rightarrow> int \<Rightarrow> ProgressReporter" where
  "Update p rowsCopied =
     p \<lparr> RowsCopied := RowsCopied p + rowsCopied,
         bar := (bar p) \<lparr> calls := calls (bar p) @ [Add rowsCopied] \<rparr> \<rparr>"

definition SetTotalRows :: "ProgressReporter \<Rightarrow> int \<Rightarrow> ProgressReporter" where
  "SetTotalRows p totalRows =
     p \<lparr> RowTotal := totalRows,
         bar := (bar p) \<lparr> calls := calls (bar p) @ [ChangeMax totalRows] \<rparr> \<rparr>"

definition SetError :: "ProgressReporter \<Rightarrow> error option \<Rightarrow> ProgressReporter" where
  "SetError p e = p \<lparr> isDone := True, err := e \<rparr>"

subsection \<open>The monitor\<close>

text \<open>
  The Go maps \<open>monitors\<close> and \<open>lastRender.rowsCopied\<close> are association lists with distinct
  keys (a key is stored once, by \<open>map_store\<close>).  The writer \<open>w\<close> is the sequence of pieces
  written so far.  \<open>tickerRunning\<close> is the state of \<open>renderTicker\<close>.
\<close>

datatype out_piece = Text string | BarString ProgressBar

record LastRender =
  managedLines :: int
  rowsCopied :: "(string \<times> int) list"

record Monitor =
  ci :: bool
  monitors :: "(string \<times> ProgressReporter) list"
  tickerRunning :: bool
  lastRender :: LastRender
  sortedTableKeys :: "string list"
  w :: "out_piece list"

fun map_store :: "'k \<Rightarrow> 'v \<Rightarrow> ('k \<times> 'v) list \<Rightarrow> ('k \<times> 'v) list" where
  "map_store k v [] = [(k, v)]"
| "map_store k v ((k', v') # m) =
     (if k' = k then (k, v) # m else (k', v') # map_store k v m)"

definition NewMonitor :: "bool \<Rightarrow> Monitor" where
  "NewMonitor ci_flag =
     \<lparr> ci = ci_flag, monitors = [], tickerRunning = True,
       lastRender = \<lparr> managedLines = 0, rowsCopied = [] \<rparr>,
       sortedTableKeys = [], w = [] \<rparr>"

subsection \<open>Rendering\<close>

text \<open>
  The line-oriented mode of \<open>render\<close>: one pass over \<open>sortedTableKeys\<close>, threading the
  \<open>rowsCopied\<close> map of the last render and the output.  \<open>m.monitors[key]\<close> is a pointer;
  reading a field through the \<open>nil\<close> of an absent key panics.
\<close>

definition copied_line :: "string \<Rightarrow> int \<Rightarrow> int \<Rightarrow> string" where
  "copied_line key copied rowTotal =
     key @ '' copied '' @ fmt_d copied @ '' of '' @ fmt_d rowTotal @ [CHR 0x0A]"

fun renderCI :: "(string \<times> ProgressReporter) list \<Rightarrow> string list \<Rightarrow>
    (string \<times> int) list \<Rightarrow> out_piece list \<Rightarrow> panic + ((string \<times> int) list \<times> out_piece list)" where
  "renderCI mons [] seen out = Inr (seen, out)"
| "renderCI mons (key # keys) seen out =
     (case map_of mons key of
        None \<Rightarrow> Inl NilPointerDereference
      | Some p \<Rightarrow>
          if RowTotal p = 0 then renderCI mons keys seen out
          else (case map_of seen key of
                  None \<Rightarrow>
                    renderCI mons keys (map_store key (RowsCopied p) seen)
                      (out @ [Text (copied_line key (RowsCopied p) (RowTotal p))])
                | Some lastCount \<Rightarrow>
                    if lastCount < RowsCopied p
                    then renderCI mons keys (map_store key (RowsCopied p) seen)
                           (out @ [Text (copied_line key (RowsCopied p) (RowTotal p))])
                    else renderCI mons keys seen out))"

text \<open>
  The interactive mode builds one output string: the header, then per key either the bar
  or the failure line; each adds two to the number of managed lines.
\<close>

fun renderBars :: "(string \<times> ProgressReporter) list \<Rightarrow> string list \<Rightarrow>
    out_piece list \<Rightarrow> int \<Rightarrow> panic + (out_piece list \<times> int)" where
  "renderBars mons [] output newManagedLines = Inr (output, newManagedLines)"
| "renderBars mons (key # keys) output newManagedLines =
     (case map_of mons key of
        None \<Rightarrow> Inl NilPointerDereference
      | Some p \<Rightarrow>
          (case err p of
             None \<Rightarrow>
               renderBars mons keys
                 (output @ [BarString (bar p), Text [CHR 0x0A, CHR 0x0A]])
                 (newManagedLines + 2)
           | Some e \<Rightarrow>
               renderBars mons keys
                 (output @ [Text (TableRef_String (reporterTable p) @ '' = FAILED : '' @
                                  Error e @ [CHR 0x0A, CHR 0x0A])])
                 (newManagedLines + 2)))"

definition clear_line :: string where
  "clear_line = [CHR 0x1B] @ ''[1F'' @ [CHR 0x1B] @ ''[2K''"

definition render :: "Monitor \<Rightarrow> panic + Monitor" where
  "render m =
     (if ci m then
        (case renderCI (monitors m) (sortedTableKeys m) (rowsCopied (lastRender m)) (w m) of
           Inl p \<Rightarrow> Inl p
         | Inr (seen, out) \<Rightarrow>
             Inr (m \<lparr> lastRender := (lastRender m) \<lparr> rowsCopied := seen \<rparr>, w := out \<rparr>))
      else
        (let cleared = w m @ replicate (nat (managedLines (lastRender m))) (Text clear_line);
             header = [Text (''Copying from '' @ strings_Join (sortedTableKeys m) '', '' @
                             [CHR 0x0A, CHR 0x0A])]
         in case renderBars (monitors m) (sortedTableKeys m) header 2 of
              Inl p \<Rightarrow> Inl p
            | Inr (output, newManagedLines) \<Rightarrow>
                Inr (m \<lparr> lastRender := (lastRender m) \<lparr> managedLines := newManagedLines \<rparr>,
                       w := cleared @ output \<rparr>)))"

subsection \<open>The run loop\<close>

text \<open>
  Each turn of the loop is one \<open>select\<close>: the context is done, an event is received, or the
  render ticker fires.  \<open>Run\<close> consumes the sequence of these; when the sequence is used up
  the loop is blocked in \<open>select\<close> (\<open>Waiting\<close>).  Otherwise it has returned an error or
  \<open>nil\<close>, or it has panicked.
\<close>

datatype selected = CtxDone | Recv Event | Tick

datatype run_result = Returned "error option" | Waiting | Panicked panic

definition anyRunning :: "(string \<times> ProgressReporter) list \<Rightarrow> bool" where
  "anyRunning mons = list_ex (\<lambda>(key, monitor). \<not> isDone monitor) mons"

text \<open>The tail of the finished and error cases: stop the ticker, render, return \<open>nil\<close>.\<close>

definition finish :: "Monitor \<Rightarrow> run_result \<times> Monitor" where
  "finish m =
     (case render (m \<lparr> tickerRunning := False \<rparr>) of
        Inl p \<Rightarrow> (Panicked p, m \<lparr> tickerRunning := False \<rparr>)
      | Inr m' \<Rightarrow> (Returned None, m'))"

fun Run :: "Monitor \<Rightarrow> selected list \<Rightarrow> run_result \<times> Monitor" where
  "Run m [] = (Waiting, m)"
| "Run m (CtxDone # rest) =
     (case render m of Inl p \<Rightarrow> (Panicked p, m) | Inr m' \<Rightarrow> (Returned None, m'))"
| "Run m (Tick # rest) =
     (case render m of Inl p \<Rightarrow> (Panicked p, m) | Inr m' \<Rightarrow> Run m' rest)"
| "Run m (Recv (ProgressUpdateEvent n table) # rest) =
     (case map_of (monitors m) (TableRef_String table) of
        None \<Rightarrow> (Returned (Some (Errorf (''no monitor found for table '' @ TableRef_String table))), m)
      | Some p \<Rightarrow>
          Run (m \<lparr> monitors := map_store (TableRef_String table) (Update p n) (monitors m) \<rparr>) rest)"
| "Run m (Recv (CopyTaskStartedEvent table) # rest) =
     (case map_of (monitors m) (TableRef_String table) of
        Some p \<Rightarrow> (Returned (Some (Errorf (''monitor already exists for table '' @ TableRef_String table))), m)
      | None \<Rightarrow>
          (let mons = map_store (TableRef_String table) (NewProgressReporter table) (monitors m)
           in Run (m \<lparr> monitors := mons, sortedTableKeys := sort (map fst mons) \<rparr>) rest))"
| "Run m (Recv (CountUpdateEvent n table) # rest) =
     (case map_of (monitors m) (TableRef_String table) of
        None \<Rightarrow> (Returned (Some (Errorf (''no monitor found for table '' @ TableRef_String table))), m)
      | Some p \<Rightarrow>
          Run (m \<lparr> monitors := map_store (TableRef_String table) (SetTotalRows p n) (monitors m) \<rparr>) rest)"
| "Run m (Recv (CopyTaskFinishedEvent table) # rest) =
     (case map_of (monitors m) (TableRef_String table) of
        None \<Rightarrow> (Returned (Some (Errorf (''no monitor found for table '' @ TableRef_String table))), m)
      | Some p \<Rightarrow>
          (let m' = m \<lparr> monitors := map_store (TableRef_String table) (p \<lparr> isDone := True \<rparr>) (monitors m) \<rparr>
           in if \<not> anyRunning (monitors m') then finish m' else Run m' rest))"
| "Run m (Recv (ErrorEvent table e) # rest) =
     (case map_of (monitors m) (TableRef_String table) of
        None \<Rightarrow> (Returned (Some (Errorf (''no monitor found for table '' @ TableRef_String table))), m)
      | Some p \<Rightarrow>
          (let m' = m \<lparr> monitors := map_store (TableRef_String table) (SetError p e) (monitors m) \<rparr>
           in if \<not> anyRunning (monitors m') then finish m' else Run m' rest))"
| "Run m (Recv OtherEvent # rest) = Run m rest"

text \<open>The tables that the task-started events of a sequence name, by their rendering.\<close>

definition started_keys :: "selected list \<Rightarrow> string set" where
  "started_keys sel = {TableRef_String t | t. Recv (CopyTaskStartedEvent t) \<in> set sel}"

section \<open>Target database as seen through the driver\<close>

text \<open>
  A column value is a Go \<open>interface{}\<close>.  The dynamic types that matter are a byte slice
  (\<open>[]uint8\<close>), a string, an integer, \<open>nil\<close>, and a pointer to an interface value
  (\<open>*interface{}\<close>), which is what \<open>RowIterator.Next\<close> puts in every position of a row
  (\<open>values[i] = new(interface{})\<close>, filled by \<open>Scan\<close>).
\<close>

datatype go_value = Bytes string | Str string | Integer int | Null | Ptr go_value

type_synonym row = "go_value list"

text \<open>
  \<^verbatim>\<open>
  type ForeingKeyConstraint struct {
      Name, Schema, Table, Column, ReferencedSchema, ReferencedTable,
      ReferencedColumn, NoCheck string
  }
  \<close>
  The fields carry the prefix \<open>fk\<close> here, since \<open>Schema\<close> and \<open>Table\<close> are fields of
  \<open>TableRef\<close> already.
\<close>

record ForeingKeyConstraint =
  fkName :: string
  fkSchema :: string
  fkTable :: string
  fkColumn :: string
  fkReferencedSchema :: string
  fkReferencedTable :: string
  fkReferencedColumn :: string
  fkNoCheck :: string

text \<open>
  Modelled from the spec: the store that the copy task and the loader talk to through
  \<open>database/sql\<close> (the driver and the server are outside this repository).  The state
  holds the rows of the target table, the foreign keys of the database, the transactions
  that are open (each with the rows handed to its bulk statement so far), and the log of
  the statements issued (\<open>ExecRow\<close> with the row that was handed over).  Every call
  to the driver may fail: \<open>faults\<close> scripts the outcome of the calls to come (\<open>True\<close>:
  the call fails; an exhausted script: the call succeeds).
  A failed call changes nothing but the log and the script.  A call on a transaction
  that is no longer open fails.
\<close>

datatype statement =
    BeginTx
  | PrepareCopyIn
  | ExecRow row
  | ExecFlush
  | CloseStmt
  | CommitTx
  | RollbackTx
  | QueryReferencedForeignKeys
  | DropConstraint string
  | TruncateTable
  | AddConstraint string

record database =
  faults :: "bool list"
  callLog :: "statement list"
  nextTx :: nat
  openTxs :: "(nat \<times> row list) list"
  tableRows :: "row list"
  foreignKeys :: "ForeingKeyConstraint list"

definition driver_call :: "statement \<Rightarrow> database \<Rightarrow> bool \<times> database" where
  "driver_call s d =
     (case faults d of
        [] \<Rightarrow> (True, d \<lparr> callLog := callLog d @ [s] \<rparr>)
      | f # fs \<Rightarrow> (\<not> f, d \<lparr> faults := fs, callLog := callLog d @ [s] \<rparr>))"

definition txOpen :: "nat \<Rightarrow> database \<Rightarrow> bool" where
  "txOpen t d = (map_of (openTxs d) t \<noteq> None)"

definition txRows :: "nat \<Rightarrow> database \<Rightarrow> row list" where
  "txRows t d = (case map_of (openTxs d) t of None \<Rightarrow> [] | Some rows \<Rightarrow> rows)"

definition db_BeginTx :: "database \<Rightarrow> (error + nat) \<times> database" where
  "db_BeginTx d =
     (case driver_call BeginTx d of
        (False, d1) \<Rightarrow> (Inl (DriverError ''BeginTx''), d1)
      | (True, d1) \<Rightarrow>
          (Inr (nextTx d1),
           d1 \<lparr> nextTx := nextTx d1 + 1, openTxs := openTxs d1 @ [(nextTx d1, [])] \<rparr>))"

text \<open>The statement prepared in a transaction is identified by the transaction.\<close>

definition tx_Prepare :: "nat \<Rightarrow> database \<Rightarrow> (error + nat) \<times> database" where
  "tx_Prepare t d =
     (case driver_call PrepareCopyIn d of
        (ok, d1) \<Rightarrow> if ok \<and> txOpen t d1 then (Inr t, d1)
                    else (Inl (DriverError ''Prepare''), d1))"

definition stmt_ExecContext :: "nat \<Rightarrow> row \<Rightarrow> database \<Rightarrow> error option \<times> database" where
  "stmt_ExecContext s r d =
     (case driver_call (ExecRow r) d of
        (ok, d1) \<Rightarrow>
          if ok \<and> txOpen s d1
          then (None, d1 \<lparr> openTxs := map (\<lambda>(t, rows). if t = s then (t, rows @ [r]) else (t, rows))
                                        (openTxs d1) \<rparr>)
          else (Some (DriverError ''ExecContext''), d1))"

definition stmt_Exec :: "nat \<Rightarrow> database \<Rightarrow> error option \<times> database" where
  "stmt_Exec s d =
     (case driver_call ExecFlush d of
        (ok, d1) \<Rightarrow> if ok \<and> txOpen s d1 then (None, d1) else (Some (DriverError ''Exec''), d1))"

definition stmt_Close :: "nat \<Rightarrow> database \<Rightarrow> error option \<times> database" where
  "stmt_Close s d =
     (case driver_call CloseStmt d of
        (ok, d1) \<Rightarrow> if ok then (None, d1) else (Some (DriverError ''Close''), d1))"

definition tx_Commit :: "nat \<Rightarrow> database \<Rightarrow> error option \<times> database" where
  "tx_Commit t d =
     (case driver_call CommitTx d of
        (ok, d1) \<Rightarrow>
          if ok \<and> txOpen t d1
          then (None, d1 \<lparr> tableRows := tableRows d1 @ txRows t d1,
                          openTxs := filter (\<lambda>(t', rows). t' \<noteq> t) (openTxs d1) \<rparr>)
          else (Some (DriverError ''Commit''), d1))"

definition tx_Rollback :: "nat \<Rightarrow> database \<Rightarrow> error option \<times> database" where
  "tx_Rollback t d =
     (case driver_call RollbackTx d of
        (ok, d1) \<Rightarrow>
          if ok \<and> txOpen t d1
          then (None, d1 \<lparr> openTxs := filter (\<lambda>(t', rows). t' \<noteq> t) (openTxs d1) \<rparr>)
          else (Some (DriverError ''Rollback''), d1))"

section \<open>Batched loader: \<open>BulkInsert\<close> (package mssql)\<close>

text \<open>
  \<^verbatim>\<open>
  type BulkInsert struct {
      table TableRef; columns []string; db *sql.DB; commitCount int
      count int; stmt *sql.Stmt; tx *sql.Tx
  }
  \<close>
  The handle \<open>db\<close> is the \<open>database\<close> threaded through the operations.  \<open>count\<close> is a Go
  \<open>int\<close>; it is reset at \<open>commitCount\<close>, so no wrap-around is written out.
\<close>

record BulkInsert =
  table :: TableRef
  columns :: "string list"
  commitCount :: int
  count :: int
  stmt :: "nat option"
  tx :: "nat option"

definition NewBulkInsert :: "TableRef \<Rightarrow> string list \<Rightarrow> BulkInsert" where
  "NewBulkInsert tbl cols =
     \<lparr> table = tbl, columns = cols, commitCount = 50000, count = 0, stmt = None, tx = None \<rparr>"

definition getStmt :: "BulkInsert \<Rightarrow> database \<Rightarrow> (error + nat) \<times> BulkInsert \<times> database" where
  "getStmt bi d =
     (case stmt bi of
        None \<Rightarrow>
          (case db_BeginTx d of
             (Inl e, d1) \<Rightarrow> (Inl e, bi, d1)
           | (Inr t, d1) \<Rightarrow>
               (case tx_Prepare t d1 of
                  (Inl e, d2) \<Rightarrow> (Inl e, bi, d2)
                | (Inr s, d2) \<Rightarrow> (Inr s, bi \<lparr> stmt := Some s, tx := Some t \<rparr>, d2)))
      | Some s \<Rightarrow> (Inr s, bi, d))"

text \<open>
  \<^verbatim>\<open>
  func (bi *BulkInsert) Commit(ctx context.Context) error {
      if bi.stmt == nil { return nil }
      _, err := bi.stmt.Exec();  if err != nil { return err }
      err = bi.stmt.Close();     if err != nil { return err }
      err = bi.tx.Commit();      if err != nil { return err }
      bi.count = 0;  bi.stmt = nil;  bi.tx = nil
      return nil
  }
  \<close>
  Calling \<open>Commit\<close> through a \<open>nil\<close> transaction pointer panics.
\<close>

definition Commit :: "BulkInsert \<Rightarrow> database \<Rightarrow> (panic + error option) \<times> BulkInsert \<times> database" where
  "Commit bi d =
     (case stmt bi of
        None \<Rightarrow> (Inr None, bi, d)
      | Some s \<Rightarrow>
          (case stmt_Exec s d of
             (Some e, d1) \<Rightarrow> (Inr (Some e), bi, d1)
           | (None, d1) \<Rightarrow>
               (case stmt_Close s d1 of
                  (Some e, d2) \<Rightarrow> (Inr (Some e), bi, d2)
                | (None, d2) \<Rightarrow>
                    (case tx bi of
                       None \<Rightarrow> (Inl NilPointerDereference, bi, d2)
                     | Some t \<Rightarrow>
                         (case tx_Commit t d2 of
                            (Some e, d3) \<Rightarrow> (Inr (Some e), bi, d3)
                          | (None, d3) \<Rightarrow>
                              (Inr None, bi \<lparr> count := 0, stmt := None, tx := None \<rparr>, d3))))))"

text \<open>
  \<^verbatim>\<open>
  for i, value := range row {
      if v, ok := value.(*interface{}); ok {
          if b, ok := (*v).([]uint8); ok { row[i] = string(b) }
      }
  }
  \<close>
\<close>

fun coerce :: "go_value \<Rightarrow> go_value" where
  "coerce (Ptr (Bytes b)) = Str b"
| "coerce v = v"

definition go_rem :: "int \<Rightarrow> int \<Rightarrow> int" where
  "go_rem a b = a - b * go_quot a b"

text \<open>
  \<^verbatim>\<open>
  func (bi *BulkInsert) Insert(ctx context.Context, row []interface{}) error {
      for i, value := range row { ... }
      stmt, err := bi.getStmt(ctx);       if err != nil { return err }
      _, err = stmt.ExecContext(ctx, row...);  if err != nil { return err }
      bi.count++
      if bi.count%bi.commitCount == 0 {
          err = bi.Commit(ctx);  if err != nil { return err }
      }
      return nil
  }
  \<close>
  The remainder by a zero \<open>commitCount\<close> panics.  The result of the inner \<open>Commit\<close> is the
  result of \<open>Insert\<close>, whether an error or \<open>nil\<close>.
\<close>

definition Insert :: "BulkInsert \<Rightarrow> database \<Rightarrow> row \<Rightarrow> (panic + error option) \<times> BulkInsert \<times> database" where
  "Insert bi d r =
     (case getStmt bi d of
        (Inl e, bi1, d1) \<Rightarrow> (Inr (Some e), bi1, d1)
      | (Inr s, bi1, d1) \<Rightarrow>
          (case stmt_ExecContext s (map coerce r) d1 of
             (Some e, d2) \<Rightarrow> (Inr (Some e), bi1, d2)
           | (None, d2) \<Rightarrow>
               (let bi2 = bi1 \<lparr> count := count bi1 + 1 \<rparr>
                in if commitCount bi2 = 0 then (Inl DivideByZero, bi2, d2)
                   else if go_rem (count bi2) (commitCount bi2) = 0 then Commit bi2 d2
                   else (Inr None, bi2, d2))))"

text \<open>
  \<^verbatim>\<open>
  func (bi *BulkInsert) Rollback(ctx context.Context) error {
      if bi.tx == nil { return fmt.Errorf("no active transaction to rollback") }
      return bi.tx.Rollback()
  }
  \<close>
\<close>

definition Rollback :: "BulkInsert \<Rightarrow> database \<Rightarrow> error option \<times> BulkInsert \<times> database" where
  "Rollback bi d =
     (case tx bi of
        None \<Rightarrow> (Some (Errorf ''no active transaction to rollback''), bi, d)
      | Some t \<Rightarrow> (case tx_Rollback t d of (r, d1) \<Rightarrow> (r, bi, d1)))"

text \<open>A run of \<open>Insert\<close> calls, one per row, that stops at the first call that fails.\<close>

fun InsertAll :: "BulkInsert \<Rightarrow> database \<Rightarrow> row list \<Rightarrow> (panic + error option) \<times> BulkInsert \<times> database" where
  "InsertAll bi d [] = (Inr None, bi, d)"
| "InsertAll bi d (r # rs) =
     (case Insert bi d r of
        (Inr None, bi1, d1) \<Rightarrow> InsertAll bi1 d1 rs
      | failed \<Rightarrow> failed)"

text \<open>
  The states of a loader and its store that the operations can reach: from a new loader
  on a store with no open transaction, by an \<open>Insert\<close> that returns \<open>nil\<close>, by a \<open>Commit\<close>
  and by a \<open>Rollback\<close> (whatever these two return).
\<close>

inductive reachable :: "BulkInsert \<Rightarrow> database \<Rightarrow> bool" where
  new: "openTxs d = [] \<Longrightarrow> reachable (NewBulkInsert tbl cols) d"
| insert: "reachable bi d \<Longrightarrow> Insert bi d r = (Inr None, bi', d') \<Longrightarrow> reachable bi' d'"
| commit: "reachable bi d \<Longrightarrow> Commit bi d = (res, bi', d') \<Longrightarrow> reachable bi' d'"
| rollback: "reachable bi d \<Longrightarrow> Rollback bi d = (res', bi', d') \<Longrightarrow> reachable bi' d'"

text \<open>The rows handed to the statement of the transaction that the loader holds.\<close>

definition pending :: "BulkInsert \<Rightarrow> database \<Rightarrow> row list" where
  "pending bi d = (case tx bi of None \<Rightarrow> [] | Some t \<Rightarrow> txRows t d)"

text \<open>
  The invariant of the loader: statement and transaction are set together; the store has
  no open transaction, or exactly one, which is the one the loader holds; the counter is
  the number of rows handed to the open statement and stays below \<open>commitCount\<close>.
\<close>

definition loader_inv :: "BulkInsert \<Rightarrow> database \<Rightarrow> bool" where
  "loader_inv bi d =
     (stmt bi = tx bi \<and> commitCount bi = 50000 \<and> 0 \<le> count bi \<and> count bi < commitCount bi \<and>
      (tx bi = None \<longrightarrow> count bi = 0) \<and>
      (case openTxs d of
         [] \<Rightarrow> True
       | (t, rows) # others \<Rightarrow> others = [] \<and> tx bi = Some t \<and> int (length rows) = count bi))"


section \<open>Copy task: the writer stage (package copy)\<close>

subsection \<open>Foreign keys and truncation (package mssql)\<close>

text \<open>
  \<open>GetReferencedForeignKeys\<close> runs one query and returns the constraints whose referenced
  table is the given table, in the given schema.
\<close>

definition references :: "TableRef \<Rightarrow> ForeingKeyConstraint \<Rightarrow> bool" where
  "references tbl fk = (fkReferencedTable fk = Table tbl \<and> fkSchema fk = Schema tbl)"

definition GetReferencedForeignKeys ::
    "TableRef \<Rightarrow> database \<Rightarrow> (error + ForeingKeyConstraint list) \<times> database" where
  "GetReferencedForeignKeys tbl d =
     (case driver_call QueryReferencedForeignKeys d of
        (ok, d1) \<Rightarrow>
          if ok then (Inr (filter (references tbl) (foreignKeys d1)), d1)
          else (Inl (DriverError ''QueryContext''), d1))"

text \<open>
  \<^verbatim>\<open>
  func (db *MSSQLDB) DropForeignKey(ctx context.Context, foreignKey ForeingKeyConstraint) error {
      query := fmt.Sprintf("ALTER TABLE %s.%s DROP CONSTRAINT %s",
                           foreignKey.Schema, foreignKey.Table, foreignKey.Name)
      _, err := db.db.ExecContext(ctx, query)
      ...
  \<close>
\<close>

definition DropForeignKey :: "ForeingKeyConstraint \<Rightarrow> database \<Rightarrow> error option \<times> database" where
  "DropForeignKey fk d =
     (case driver_call (DropConstraint (fkName fk)) d of
        (ok, d1) \<Rightarrow>
          if ok
          then (None, d1 \<lparr> foreignKeys :=
                  filter (\<lambda>k. \<not> (fkName k = fkName fk \<and> fkSchema k = fkSchema fk \<and>
                                   fkTable k = fkTable fk)) (foreignKeys d1) \<rparr>)
          else (Some (DriverError ''ExecContext''), d1))"

fun DropAll :: "ForeingKeyConstraint list \<Rightarrow> database \<Rightarrow> error option \<times> database" where
  "DropAll [] d = (None, d)"
| "DropAll (fk # fks) d =
     (case DropForeignKey fk d of
        (Some e, d1) \<Rightarrow> (Some e, d1)
      | (None, d1) \<Rightarrow> DropAll fks d1)"

text \<open>\<open>DropReferencedForeignKeys\<close> looks the constraints up itself and drops each.\<close>

definition DropReferencedForeignKeys :: "TableRef \<Rightarrow> database \<Rightarrow> error option \<times> database" where
  "DropReferencedForeignKeys tbl d =
     (case GetReferencedForeignKeys tbl d of
        (Inl e, d1) \<Rightarrow> (Some e, d1)
      | (Inr fks, d1) \<Rightarrow> DropAll fks d1)"

definition EmptyTable :: "TableRef \<Rightarrow> database \<Rightarrow> error option \<times> database" where
  "EmptyTable tbl d =
     (case driver_call TruncateTable d of
        (ok, d1) \<Rightarrow>
          if ok then (None, d1 \<lparr> tableRows := [] \<rparr>)
          else (Some (DriverError ''ExecContext''), d1))"

text \<open>
  \<open>AddForeignKey\<close> passes \<open>foreignKey.Table\<close> as the parameter \<open>column\<close> and
  \<open>foreignKey.Column\<close> as the parameter \<open>referenced_column\<close>; the constraint that the
  statement describes is the one added when the statement succeeds.
\<close>

definition AddForeignKey :: "ForeingKeyConstraint \<Rightarrow> database \<Rightarrow> error option \<times> database" where
  "AddForeignKey fk d =
     (case driver_call (AddConstraint (fkName fk)) d of
        (ok, d1) \<Rightarrow>
          if ok
          then (None, d1 \<lparr> foreignKeys := foreignKeys d1 @
                  [fk \<lparr> fkColumn := fkTable fk, fkReferencedColumn := fkColumn fk \<rparr>] \<rparr>)
          else (Some (DriverError ''ExecContext''), d1))"

fun AddForeignKeys :: "ForeingKeyConstraint list \<Rightarrow> database \<Rightarrow> error option \<times> database" where
  "AddForeignKeys [] d = (None, d)"
| "AddForeignKeys (fk # fks) d =
     (case AddForeignKey fk d of
        (Some e, d1) \<Rightarrow> (Some e, d1)
      | (None, d1) \<Rightarrow> AddForeignKeys fks d1)"

subsection \<open>The writer goroutine of \<open>CopyTask.Run\<close>\<close>

text \<open>
  The writer ranges over \<open>dataChan\<close>; it sees the rows that the reader sent before closing
  the channel, in order.  The model takes this sequence of rows, the store of the target,
  and returns the events sent to \<open>eventChan\<close>, the store afterwards, and the panic if one
  occurred.  (\<open>append(ct.errs, err)\<close> discards its result, so the task's error list does not
  change and is left out.)

  The block guarded by \<open>i == 0\<close>, with the message of the error event when a step fails:
\<close>

definition prepareTarget ::
    "TableRef \<Rightarrow> database \<Rightarrow> (string + ForeingKeyConstraint list) \<times> database" where
  "prepareTarget tbl d =
     (case GetReferencedForeignKeys tbl d of
        (Inl e, d1) \<Rightarrow>
          (Inl (''Failed to get foreign keys for table '' @ TableRef_String tbl @
                '' from the targetDB''), d1)
      | (Inr fks, d1) \<Rightarrow>
          (case DropReferencedForeignKeys tbl d1 of
             (Some e, d2) \<Rightarrow>
               (Inl (''Failed to drop foreign keys for table '' @ TableRef_String tbl @
                     '' from the targetDB''), d2)
           | (None, d2) \<Rightarrow>
               (case EmptyTable tbl d2 of
                  (Some e, d3) \<Rightarrow>
                    (Inl (''Failed to empty target table '' @ TableRef_String tbl), d3)
                | (None, d3) \<Rightarrow> (Inr fks, d3))))"

text \<open>
  \<^verbatim>\<open>
  i := 0
  var fks []mssql.ForeingKeyConstraint
  for row := range dataChan {
      if i == 0 { ... fetch and drop the foreign keys, empty the table ... }
      i++
      err := bulkInsert.Insert(ctx, row)
      if err != nil { bulkInsert.Rollback(ctx); ... ErrorEvent ...; return }
      ct.eventChan <- monitor.ProgressUpdateEvent{RowsCopied: 1, Table: ct.table}
  }
  err = bulkInsert.Commit(ctx)
  if err != nil { ... ErrorEvent ...; return }
  if len(fks) > 0 {
      err = ct.targetDB.AddForeignKeys(ctx, fks)
      if err != nil { ... ErrorEvent ...; return }
  }
  ct.eventChan <- monitor.CopyTaskFinishedEvent{Table: ct.table}
  \<close>
\<close>

fun writerLoop :: "TableRef \<Rightarrow> BulkInsert \<Rightarrow> nat \<Rightarrow> ForeingKeyConstraint list \<Rightarrow> database \<Rightarrow>
    Event list \<Rightarrow> row list \<Rightarrow> panic option \<times> Event list \<times> database" where
  "writerLoop tbl bi i fks d evs [] =
     (case Commit bi d of
        (Inl p, bi1, d1) \<Rightarrow> (Some p, evs, d1)
      | (Inr (Some e), bi1, d1) \<Rightarrow>
          (None, evs @ [ErrorEvent tbl (Some (Errorf
             (''Failed to commit the transaction into target table '' @ TableRef_String tbl @
              '', '' @ Error e)))], d1)
      | (Inr None, bi1, d1) \<Rightarrow>
          if length fks > 0
          then (case AddForeignKeys fks d1 of
                  (Some e, d2) \<Rightarrow>
                    (None, evs @ [ErrorEvent tbl (Some (Errorf
                       (''Failed to add foreign keys into target table '' @ TableRef_String tbl @
                        '', '' @ Error e)))], d2)
                | (None, d2) \<Rightarrow> (None, evs @ [CopyTaskFinishedEvent tbl], d2))
          else (None, evs @ [CopyTaskFinishedEvent tbl], d1))"
| "writerLoop tbl bi i fks d evs (r # rs) =
     (case (if i = 0 then prepareTarget tbl d else (Inr fks, d)) of
        (Inl msg, d1) \<Rightarrow> (None, evs @ [ErrorEvent tbl (Some (Errorf msg))], d1)
      | (Inr fks1, d1) \<Rightarrow>
          (case Insert bi d1 r of
             (Inl p, bi1, d2) \<Rightarrow> (Some p, evs, d2)
           | (Inr (Some e), bi1, d2) \<Rightarrow>
               (case Rollback bi1 d2 of
                  (ignored, bi2, d3) \<Rightarrow>
                    (None, evs @ [ErrorEvent tbl (Some (Errorf
                       (''Failed to insert row into the target table '' @ TableRef_String tbl @
                        '', '' @ Error e)))], d3))
           | (Inr None, bi1, d2) \<Rightarrow>
               writerLoop tbl bi1 (i + 1) fks1 d2 (evs @ [ProgressUpdateEvent 1 tbl]) rs))"

definition writer :: "TableRef \<Rightarrow> string list \<Rightarrow> database \<Rightarrow> row list \<Rightarrow>
    panic option \<times> Event list \<times> database" where
  "writer tbl targetColumns d rows =
     writerLoop tbl (NewBulkInsert tbl targetColumns) 0 [] d [] rows"

text \<open>The statements of the destructive setup: foreign-key lookup, drop and truncate.\<close>

fun is_setup :: "statement \<Rightarrow> bool" where
  "is_setup QueryReferencedForeignKeys = True"
| "is_setup (DropConstraint n) = True"
| "is_setup TruncateTable = True"
| "is_setup c = False"

text \<open>\<open>quiet d d'\<close>: from \<open>d\<close> to \<open>d'\<close> no statement of the destructive setup was issued.\<close>

definition quiet :: "database \<Rightarrow> database \<Rightarrow> bool" where
  "quiet d d' = (\<exists>cs. callLog d' = callLog d @ cs \<and> (\<forall>c \<in> set cs. \<not> is_setup c))"

section \<open>Filter parser (package mssql)\<close>

subsection \<open>Library functions on strings\<close>

text \<open>
  \<open>strings.Split(s, " ")\<close> cuts at every single space, so \<open>n\<close> spaces give \<open>n + 1\<close> tokens
  (the empty string gives one empty token).  \<open>strings.Trim(s, cutset)\<close> removes the
  leading and trailing bytes that are in the cutset.  \<open>strings.ToUpper\<close> is applied by
  the parser to the connectors and to comparison operators only, which are ASCII; it
  is modelled on ASCII letters.
\<close>

fun strings_Split :: "string \<Rightarrow> char \<Rightarrow> string list" where
  "strings_Split [] sep = [[]]"
| "strings_Split (x # xs) sep =
     (if x = sep then [] # strings_Split xs sep
      else (case strings_Split xs sep of
              [] \<Rightarrow> [[x]]
            | token # tokens \<Rightarrow> (x # token) # tokens))"

definition strings_Trim :: "string \<Rightarrow> string \<Rightarrow> string" where
  "strings_Trim s cutset =
     rev (dropWhile (\<lambda>c. c \<in> set cutset) (rev (dropWhile (\<lambda>c. c \<in> set cutset) s)))"

definition upper_char :: "char \<Rightarrow> char" where
  "upper_char c =
     (case map_of (zip ''abcdefghijklmnopqrstuvwxyz'' ''ABCDEFGHIJKLMNOPQRSTUVWXYZ'') c of
        None \<Rightarrow> c
      | Some u \<Rightarrow> u)"

definition strings_ToUpper :: "string \<Rightarrow> string" where
  "strings_ToUpper s = map upper_char s"

subsection \<open>Expressions and filters\<close>

text \<open>
  \<^verbatim>\<open>
  type expression struct { column string; operator string; value string }
  func (e expression) String() string {
      quoter := mssql.TSQLQuoter{}
      return fmt.Sprintf("( %s %s %s )", quoter.ID(e.column),
                         strings.ToUpper(e.operator), quoter.Value(e.value))
  }
  type filter struct { expressions []expression; operators []string }
  \<close>
  The field \<open>value\<close> of the source is \<open>val\<close> here (\<open>value\<close> is a keyword).
\<close>

record expression =
  column :: string
  operator :: string
  val :: string

definition expression_String :: "expression \<Rightarrow> string" where
  "expression_String e =
     ''( '' @ quoter_ID (column e) @ '' '' @ strings_ToUpper (operator e) @ '' '' @
     quoter_Value (val e) @ '' )''"

record filter =
  expressions :: "expression list"
  operators :: "string list"

text \<open>
  The loop of \<open>filter.String\<close> writes, in each turn, the next expression if one is left and
  then the next operator, between two spaces, if one is left; it stops when both are used
  up.  The recursion below takes one turn per equation.
\<close>

fun interleave :: "expression list \<Rightarrow> string list \<Rightarrow> string" where
  "interleave [] [] = []"
| "interleave (e # es) [] = expression_String e @ interleave es []"
| "interleave [] (opr # ops) = '' '' @ opr @ '' '' @ interleave [] ops"
| "interleave (e # es) (opr # ops) =
     expression_String e @ '' '' @ opr @ '' '' @ interleave es ops"

definition filter_String :: "filter \<Rightarrow> string" where
  "filter_String f =
     (if length (expressions f) = 0 then ''1=1''
      else interleave (expressions f) (operators f))"

subsection \<open>\<open>splitExpressions\<close>\<close>

text \<open>
  \<^verbatim>\<open>
  for _, part := range allParts {
      switch part {
      case "AND", "OR", "and", "or":
          parts = append(parts, strings.Trim(partBuilder.String(), " "))
          parts = append(parts, strings.ToUpper(part))
          partBuilder.Reset()
      default:
          partBuilder.WriteString(part + " ")
      }
  }
  if partBuilder.Len() > 0 {
      parts = append(parts, strings.Trim(partBuilder.String(), " "))
  }
  \<close>
\<close>

definition is_connector :: "string \<Rightarrow> bool" where
  "is_connector part = (part = ''AND'' \<or> part = ''OR'' \<or> part = ''and'' \<or> part = ''or'')"

fun splitLoop :: "string list \<Rightarrow> string list \<Rightarrow> string \<Rightarrow> string list \<times> string" where
  "splitLoop [] parts partBuilder = (parts, partBuilder)"
| "splitLoop (part # allParts) parts partBuilder =
     (if is_connector part
      then splitLoop allParts
             (parts @ [strings_Trim partBuilder '' '', strings_ToUpper part]) []
      else splitLoop allParts parts (partBuilder @ part @ '' ''))"

definition splitExpressions :: "string \<Rightarrow> string list" where
  "splitExpressions s =
     (case splitLoop (strings_Split s (CHR '' '')) [] [] of
        (parts, partBuilder) \<Rightarrow>
          if length partBuilder > 0 then parts @ [strings_Trim partBuilder '' ''] else parts)"

subsection \<open>The expression pattern\<close>

text \<open>
  \<^verbatim>\<open>([\[\]\"a-zA-Z0-9_ ]+?) ([=<>]{1,2}) (.+)\<close>

  \<open>FindStringSubmatch\<close> returns the leftmost match, and among the matches at that place
  the one a backtracking matcher finds first: the first group is lazy (shortest first),
  the operator group greedy (two characters before one), and the last group takes every
  byte up to the first newline or the end.  \<open>matchTail\<close> matches what follows the first
  group; \<open>matchFrom\<close> extends the first group by one byte at a time; \<open>findSubmatch\<close>
  moves the start to the right.  The result is the three groups, or \<open>None\<close> where Go
  returns \<open>nil\<close>.
\<close>

definition is_ident_char :: "char \<Rightarrow> bool" where
  "is_ident_char c =
     (let n = (of_char c :: nat)
      in c = CHR ''['' \<or> c = CHR '']'' \<or> c = CHR 0x22 \<or> c = CHR ''_'' \<or> c = CHR '' '' \<or>
         (97 \<le> n \<and> n \<le> 122) \<or> (65 \<le> n \<and> n \<le> 90) \<or> (48 \<le> n \<and> n \<le> 57))"

definition is_op_char :: "char \<Rightarrow> bool" where
  "is_op_char c = (c = CHR ''='' \<or> c = CHR ''<'' \<or> c = CHR ''>'')"

definition matchValue :: "string \<Rightarrow> string option" where
  "matchValue s =
     (case s of
        [] \<Rightarrow> None
      | c # cs \<Rightarrow> if c = CHR 0x0A then None else Some (takeWhile (\<lambda>x. x \<noteq> CHR 0x0A) s))"

definition matchOperator :: "nat \<Rightarrow> string \<Rightarrow> (string \<times> string) option" where
  "matchOperator n s =
     (if n \<le> length s \<and> list_all is_op_char (take n s) \<and>
         n < length s \<and> s ! n = CHR '' ''
      then (case matchValue (drop (Suc n) s) of
              None \<Rightarrow> None
            | Some v \<Rightarrow> Some (take n s, v))
      else None)"

definition matchTail :: "string \<Rightarrow> (string \<times> string) option" where
  "matchTail s =
     (case s of
        [] \<Rightarrow> None
      | c # cs \<Rightarrow>
          if c \<noteq> CHR '' '' then None
          else (case matchOperator 2 cs of
                  Some m \<Rightarrow> Some m
                | None \<Rightarrow> matchOperator 1 cs))"

fun matchFrom :: "string \<Rightarrow> string \<Rightarrow> (string \<times> string \<times> string) option" where
  "matchFrom g1 s =
     (case matchTail s of
        Some (g2, g3) \<Rightarrow> Some (g1, g2, g3)
      | None \<Rightarrow>
          (case s of
             [] \<Rightarrow> None
           | c # cs \<Rightarrow> if is_ident_char c then matchFrom (g1 @ [c]) cs else None))"

fun findSubmatch :: "string \<Rightarrow> (string \<times> string \<times> string) option" where
  "findSubmatch [] = None"
| "findSubmatch (c # cs) =
     (case (if is_ident_char c then matchFrom [c] cs else None) of
        Some m \<Rightarrow> Some m
      | None \<Rightarrow> findSubmatch cs)"

subsection \<open>\<open>parseFilter\<close>\<close>

text \<open>
  \<^verbatim>\<open>
  func parseFilter(queryFilter string) (filter, error) {
      if queryFilter == "" { return filter{}, nil }
      f := filter{}
      expressions := splitExpressions(queryFilter)
      for _, filterPart := range expressions {
          if filterPart == "AND" || filterPart == "OR" {
              f.operators = append(f.operators, filterPart)
              continue
          }
          matches := expressionPattern.FindStringSubmatch(filterPart)
          if len(matches) < 3 {
              return filter{}, fmt.Errorf("expression (\"%s\") only has %d parts, while we expect 3 parts", filterPart, len(matches))
          }
          f.expressions = append(f.expressions, expression{
              column: strings.Trim(matches[1], "\"[]"), operator: matches[2],
              value: strings.Trim(matches[3], "'")})
      }
      return f, nil
  }
  \<close>
  A match has four entries, no match has none; so the error is raised exactly when there
  is no match, and its count is 0.
\<close>

fun parseLoop :: "string list \<Rightarrow> filter \<Rightarrow> error + filter" where
  "parseLoop [] f = Inr f"
| "parseLoop (filterPart # rest) f =
     (if filterPart = ''AND'' \<or> filterPart = ''OR''
      then parseLoop rest (f \<lparr> operators := operators f @ [filterPart] \<rparr>)
      else (case findSubmatch filterPart of
              None \<Rightarrow>
                Inl (Errorf (''expression ('' @ [CHR 0x22] @ filterPart @ [CHR 0x22] @
                             '') only has '' @ fmt_d 0 @ '' parts, while we expect 3 parts''))
            | Some (g1, g2, g3) \<Rightarrow>
                parseLoop rest
                  (f \<lparr> expressions := expressions f @
                        [\<lparr> column = strings_Trim g1 ([CHR 0x22] @ ''[]''), operator = g2,
                           val = strings_Trim g3 [CHR 0x27] \<rparr>] \<rparr>)))"

definition parseFilter :: "string \<Rightarrow> error + filter" where
  "parseFilter queryFilter =
     (if queryFilter = [] then Inr \<lparr> expressions = [], operators = [] \<rparr>
      else parseLoop (splitExpressions queryFilter) \<lparr> expressions = [], operators = [] \<rparr>)"

subsection \<open>Notions used in the properties\<close>

text \<open>What the part builder holds after the tokens \<open>ts\<close> were written to it.\<close>

definition builder :: "string list \<Rightarrow> string" where
  "builder ts = concat (map (\<lambda>t. t @ '' '') ts)"

text \<open>The test by which \<open>parseFilter\<close> takes a part for a connector.\<close>

definition is_operator_part :: "string \<Rightarrow> bool" where
  "is_operator_part p = (p = ''AND'' \<or> p = ''OR'')"

text \<open>
  The spec's words for the rendering: the atoms interleaved with their connectors, in
  order, joined by single spaces.  \<open>weave\<close> interleaves two lists, starting with the first.
\<close>

fun weave :: "'a list \<Rightarrow> 'a list \<Rightarrow> 'a list" where
  "weave [] ys = ys"
| "weave (x # xs) [] = x # xs"
| "weave (x # xs) (y # ys) = x # y # weave xs ys"

chapter \<open>Properties\<close>

section \<open>Properties of \<open>chunkBy\<close>\<close>

lemma chunkLoop_pos:
  "0 < k \<Longrightarrow>
   \<exists>cs. chunkLoop k items acc = Inr (acc @ cs) \<and> concat cs = items \<and> cs \<noteq> [] \<and>
        (\<forall>c \<in> set (butlast cs). int (length c) = k) \<and> int (length (last cs)) \<le> k"
proof (induction k items acc rule: chunkLoop.induct)
  case (1 k items acc)
  show ?case
  proof (cases "k < int (length items)")
    case False
    then have "chunkLoop k items acc = Inr (acc @ [items])"
      by (simp add: chunkLoop.simps)
    with False show ?thesis by auto
  next
    case True
    with "1.prems" have notle: "\<not> k \<le> 0" by simp
    from "1.IH" [OF True notle "1.prems"]
    obtain cs where cs:
      "chunkLoop k (drop (nat k) items) (acc @ [take (nat k) items])
         = Inr ((acc @ [take (nat k) items]) @ cs)"
      "concat cs = drop (nat k) items" "cs \<noteq> []"
      "\<forall>c \<in> set (butlast cs). int (length c) = k" "int (length (last cs)) \<le> k"
      by blast
    let ?cs = "take (nat k) items # cs"
    from True "1.prems" have len: "int (length (take (nat k) items)) = k" by simp
    have "chunkLoop k items acc = Inr (acc @ ?cs)"
      using True notle cs(1) by (subst chunkLoop.simps) simp
    moreover have "concat ?cs = items" using cs(2) by simp
    moreover have "\<forall>c \<in> set (butlast ?cs). int (length c) = k"
      using cs(3,4) len by auto
    moreover have "int (length (last ?cs)) \<le> k" using cs(3,5) by simp
    ultimately show ?thesis by blast
  qed
qed

text \<open>
  Claim C8.  For every list of tasks and every positive chunk size \<open>K\<close>, \<open>chunkBy\<close> returns
  (it does not panic) a non-empty list of consecutive chunks whose concatenation, in order,
  is the original list; every chunk except the last has exactly \<open>K\<close> elements and the last
  chunk has between zero and \<open>K\<close> elements.
\<close>

theorem chunkBy_partition:
  assumes "0 < K"
  shows "\<exists>chunks. chunkBy items K = Inr chunks \<and> chunks \<noteq> [] \<and> concat chunks = items \<and>
           (\<forall>c \<in> set (butlast chunks). int (length c) = K) \<and>
           0 \<le> int (length (last chunks)) \<and> int (length (last chunks)) \<le> K"
proof -
  from assms have "0 \<le> int (length items) div K"
    by (simp add: pos_imp_zdiv_nonneg_iff)
  with assms have "\<not> go_quot (int (length items)) K + 1 < 0"
    by (simp add: go_quot_def)
  with assms have "chunkBy items K = chunkLoop K items []"
    by (simp add: chunkBy_def)
  with chunkLoop_pos [OF assms, of items "[]"] show ?thesis by auto
qed

theorem chunkBy_partition_witness:
  "(0::int) < 2 \<and> chunkBy [1, 2, 3, 4, 5 :: nat] 2 = Inr [[1, 2], [3, 4], [5]] \<and>
   (\<exists>chunks. chunkBy [1, 2, 3, 4, 5 :: nat] 2 = Inr chunks \<and> chunks \<noteq> [] \<and>
      concat chunks = [1, 2, 3, 4, 5] \<and>
      (\<forall>c \<in> set (butlast chunks). int (length c) = 2) \<and>
      0 \<le> int (length (last chunks)) \<and> int (length (last chunks)) \<le> 2)"
proof -
  have h: "(0::int) < 2" by simp
  have e: "chunkBy [1, 2, 3, 4, 5 :: nat] 2 = Inr [[1, 2], [3, 4], [5]]"
    by (simp add: chunkBy_def go_quot_def chunkLoop.simps)
  from h e chunkBy_partition [OF h, of "[1, 2, 3, 4, 5 :: nat]"] show ?thesis by blast
qed

section \<open>Properties of \<open>compareSchemas\<close>\<close>









section \<open>Properties of the progress monitor\<close>

lemma map_of_map_store: "map_of (map_store k v m) = (map_of m)(k \<mapsto> v)"
  by (induction m) (auto simp: fun_eq_iff)

lemma dom_map_store: "dom (map_of (map_store k v m)) = insert k (dom (map_of m))"
  by (simp add: map_of_map_store)

lemma dom_map_store_present:
  "map_of m k = Some v' \<Longrightarrow> dom (map_of (map_store k v m)) = dom (map_of m)"
  by (auto simp: dom_map_store)

lemma render_monitors: "render m = Inr m' \<Longrightarrow> monitors m' = monitors m"
  by (auto simp: render_def Let_def split: if_splits sum.splits prod.splits)

lemma finish_not_Waiting: "fst (finish m) \<noteq> Waiting"
  by (simp add: finish_def split: sum.splits)

lemma started_keys_Nil: "started_keys [] = {}"
  by (simp add: started_keys_def)

lemma started_keys_Cons:
  "started_keys (s # sel) =
     (case s of Recv (CopyTaskStartedEvent t) \<Rightarrow> insert (TableRef_String t) (started_keys sel)
              | _ \<Rightarrow> started_keys sel)"
  by (auto simp: started_keys_def split: selected.splits Event.splits)

text \<open>
  While the loop is still running, the registered reporters are those registered at the
  start and those of the task-started events consumed since.
\<close>

lemma Run_Waiting_dom:
  "Run m sel = (Waiting, m') \<Longrightarrow>
   dom (map_of (monitors m')) = dom (map_of (monitors m)) \<union> started_keys sel"
proof (induction m sel rule: Run.induct)
  case (1 m)
  then show ?case by (simp add: started_keys_Nil)
next
  case (2 m rest)
  then show ?case by (simp split: sum.splits)
next
  case (3 m rest)
  then show ?case
    by (auto simp: started_keys_Cons dest!: render_monitors split: sum.splits)
next
  case (4 m n table rest)
  then show ?case
    by (auto simp: started_keys_Cons dom_map_store_present split: option.splits)
next
  case (5 m table rest)
  then show ?case
    by (auto simp: started_keys_Cons dom_map_store Let_def split: option.splits)
next
  case (6 m n table rest)
  then show ?case
    by (auto simp: started_keys_Cons dom_map_store_present split: option.splits)
next
  case (7 m table rest)
  from "7.prems" obtain p where p: "map_of (monitors m) (TableRef_String table) = Some p"
    by (auto split: option.splits)
  let ?m = "m \<lparr> monitors := map_store (TableRef_String table) (p \<lparr> isDone := True \<rparr>) (monitors m) \<rparr>"
  from "7.prems" p finish_not_Waiting [of ?m]
  have run: "anyRunning (monitors ?m)" "Run ?m rest = (Waiting, m')"
    by (auto simp: Let_def split: if_splits)
  from "7.IH" [OF p refl _ run(2)] run(1) p show ?case
    by (simp add: started_keys_Cons dom_map_store_present)
next
  case (8 m table e rest)
  from "8.prems" obtain p where p: "map_of (monitors m) (TableRef_String table) = Some p"
    by (auto split: option.splits)
  let ?m = "m \<lparr> monitors := map_store (TableRef_String table) (SetError p e) (monitors m) \<rparr>"
  from "8.prems" p finish_not_Waiting [of ?m]
  have run: "anyRunning (monitors ?m)" "Run ?m rest = (Waiting, m')"
    by (auto simp: Let_def split: if_splits)
  from "8.IH" [OF p refl _ run(2)] run(1) p show ?case
    by (simp add: started_keys_Cons dom_map_store_present)
next
  case (9 m rest)
  then show ?case by (simp add: started_keys_Cons)
qed

text \<open>A loop that is still running after a prefix goes on with what follows.\<close>

lemma Run_append:
  "Run m sel = (Waiting, m') \<Longrightarrow> Run m (sel @ rest) = Run m' rest"
proof (induction m sel rule: Run.induct)
  case (7 m table rest')
  from "7.prems" obtain p where p: "map_of (monitors m) (TableRef_String table) = Some p"
    by (auto split: option.splits)
  let ?m = "m \<lparr> monitors := map_store (TableRef_String table) (p \<lparr> isDone := True \<rparr>) (monitors m) \<rparr>"
  from "7.prems" p finish_not_Waiting [of ?m]
  have run: "anyRunning (monitors ?m)" "Run ?m rest' = (Waiting, m')"
    by (auto simp: Let_def split: if_splits)
  from "7.IH" [OF p refl _ run(2)] run(1) p show ?case
    by (simp add: Let_def)
next
  case (8 m table e rest')
  from "8.prems" obtain p where p: "map_of (monitors m) (TableRef_String table) = Some p"
    by (auto split: option.splits)
  let ?m = "m \<lparr> monitors := map_store (TableRef_String table) (SetError p e) (monitors m) \<rparr>"
  from "8.prems" p finish_not_Waiting [of ?m]
  have run: "anyRunning (monitors ?m)" "Run ?m rest' = (Waiting, m')"
    by (auto simp: Let_def split: if_splits)
  from "8.IH" [OF p refl _ run(2)] run(1) p show ?case
    by (simp add: Let_def)
qed (auto simp: Let_def split: option.splits sum.splits)

text \<open>
  Claim C7.  Let the run loop have consumed a sequence of selections and still be running.
  If the next event is a progress-update, row-count-update, task-finished or task-error
  event for a table that had no reporter at the start and for which no task-started event
  was consumed since, then \<open>Run\<close> returns the error \<open>no monitor found for table T\<close> naming
  that table; the monitor is left as it was before the event and nothing after the event
  is consumed.
\<close>

theorem Run_event_without_reporter:
  assumes running: "Run m0 pre = (Waiting, m)"
    and kind: "e = ProgressUpdateEvent n t \<or> e = CountUpdateEvent n t \<or>
               e = CopyTaskFinishedEvent t \<or> e = ErrorEvent t x"
    and unregistered: "map_of (monitors m0) (TableRef_String t) = None"
    and not_started: "\<forall>t'. Recv (CopyTaskStartedEvent t') \<in> set pre \<longrightarrow>
                         TableRef_String t' \<noteq> TableRef_String t"
  shows "Run m0 (pre @ Recv e # rest) =
           (Returned (Some (Errorf (''no monitor found for table '' @ TableRef_String t))), m)"
proof -
  from not_started have "TableRef_String t \<notin> started_keys pre"
    by (auto simp: started_keys_def)
  moreover from unregistered have "TableRef_String t \<notin> dom (map_of (monitors m0))"
    by (simp add: domIff)
  ultimately have "TableRef_String t \<notin> dom (map_of (monitors m))"
    using Run_Waiting_dom [OF running] by simp
  then have none: "map_of (monitors m) (TableRef_String t) = None"
    by (simp add: domIff)
  have "Run m (Recv e # rest) =
          (Returned (Some (Errorf (''no monitor found for table '' @ TableRef_String t))), m)"
    using kind none by (elim disjE) simp_all
  with Run_append [OF running] show ?thesis by simp
qed

theorem Run_event_without_reporter_witness:
  "Run (NewMonitor True) [Recv (CopyTaskStartedEvent \<lparr>Schema = ''dbo'', Table = ''test''\<rparr>), Tick]
     = (Waiting,
        \<lparr> ci = True,
          monitors = [(''[dbo].[test]'', NewProgressReporter \<lparr>Schema = ''dbo'', Table = ''test''\<rparr>)],
          tickerRunning = True, lastRender = \<lparr> managedLines = 0, rowsCopied = [] \<rparr>,
          sortedTableKeys = [''[dbo].[test]''], w = [] \<rparr>) \<and>
   Run (NewMonitor True)
     ([Recv (CopyTaskStartedEvent \<lparr>Schema = ''dbo'', Table = ''test''\<rparr>), Tick] @
      Recv (ProgressUpdateEvent 1 \<lparr>Schema = ''dbo'', Table = ''test2''\<rparr>) # [Tick, CtxDone])
     = (Returned (Some (Errorf ''no monitor found for table [dbo].[test2]'')),
        \<lparr> ci = True,
          monitors = [(''[dbo].[test]'', NewProgressReporter \<lparr>Schema = ''dbo'', Table = ''test''\<rparr>)],
          tickerRunning = True, lastRender = \<lparr> managedLines = 0, rowsCopied = [] \<rparr>,
          sortedTableKeys = [''[dbo].[test]''], w = [] \<rparr>)"
proof -
  let ?t = "\<lparr>Schema = ''dbo'', Table = ''test''\<rparr>"
  let ?t2 = "\<lparr>Schema = ''dbo'', Table = ''test2''\<rparr>"
  let ?pre = "[Recv (CopyTaskStartedEvent ?t), Tick]"
  let ?m = "\<lparr> ci = True, monitors = [(''[dbo].[test]'', NewProgressReporter ?t)],
          tickerRunning = True, lastRender = \<lparr> managedLines = 0, rowsCopied = [] \<rparr>,
          sortedTableKeys = [''[dbo].[test]''], w = [] \<rparr>"
  have k: "TableRef_String ?t = ''[dbo].[test]''" "TableRef_String ?t2 = ''[dbo].[test2]''"
    by (simp_all add: TableRef_String_def quoter_ID_def replace_char_def)
  have running: "Run (NewMonitor True) ?pre = (Waiting, ?m)"
    by (simp add: k NewMonitor_def render_def NewProgressReporter_def)
  have kind: "ProgressUpdateEvent 1 ?t2 = ProgressUpdateEvent 1 ?t2 \<or>
              ProgressUpdateEvent 1 ?t2 = CountUpdateEvent 1 ?t2 \<or>
              ProgressUpdateEvent 1 ?t2 = CopyTaskFinishedEvent ?t2 \<or>
              ProgressUpdateEvent 1 ?t2 = ErrorEvent ?t2 None"
    by simp
  have unregistered: "map_of (monitors (NewMonitor True)) (TableRef_String ?t2) = None"
    by (simp add: NewMonitor_def)
  have not_started: "\<forall>t'. Recv (CopyTaskStartedEvent t') \<in> set ?pre \<longrightarrow>
                         TableRef_String t' \<noteq> TableRef_String ?t2"
    by (simp add: k)
  from Run_event_without_reporter [OF running kind unregistered not_started, of "[Tick, CtxDone]"]
    running k
  show ?thesis by simp
qed

text \<open>
  Claim C10.  Let the run loop have consumed a sequence of selections and still be running.
  If the next event is a task-started event for a table that had a reporter at the start,
  or for which a task-started event was consumed since, then \<open>Run\<close> returns the error
  \<open>monitor already exists for table T\<close> naming that table; the monitor is left as it was
  before the event (the reporter is neither replaced nor merged) and nothing after the
  event is consumed.
\<close>

theorem Run_duplicate_started:
  assumes running: "Run m0 pre = (Waiting, m)"
    and registered: "map_of (monitors m0) (TableRef_String t) \<noteq> None \<or>
                     (\<exists>t0. Recv (CopyTaskStartedEvent t0) \<in> set pre \<and>
                           TableRef_String t0 = TableRef_String t)"
  shows "Run m0 (pre @ Recv (CopyTaskStartedEvent t) # rest) =
           (Returned (Some (Errorf (''monitor already exists for table '' @ TableRef_String t))), m)"
proof -
  from registered have
    "TableRef_String t \<in> dom (map_of (monitors m0)) \<union> started_keys pre"
    by (auto simp: started_keys_def domIff)
  then have "TableRef_String t \<in> dom (map_of (monitors m))"
    using Run_Waiting_dom [OF running] by simp
  then obtain p where "map_of (monitors m) (TableRef_String t) = Some p"
    by (auto simp: domIff)
  then have "Run m (Recv (CopyTaskStartedEvent t) # rest) =
          (Returned (Some (Errorf (''monitor already exists for table '' @ TableRef_String t))), m)"
    by simp
  with Run_append [OF running] show ?thesis by simp
qed

theorem Run_duplicate_started_witness:
  "Run (NewMonitor False)
     [Recv (CopyTaskStartedEvent \<lparr>Schema = ''dbo'', Table = ''test''\<rparr>),
      Recv (CountUpdateEvent 10 \<lparr>Schema = ''dbo'', Table = ''test''\<rparr>)]
     = (Waiting,
        \<lparr> ci = False,
          monitors = [(''[dbo].[test]'',
             SetTotalRows (NewProgressReporter \<lparr>Schema = ''dbo'', Table = ''test''\<rparr>) 10)],
          tickerRunning = True, lastRender = \<lparr> managedLines = 0, rowsCopied = [] \<rparr>,
          sortedTableKeys = [''[dbo].[test]''], w = [] \<rparr>) \<and>
   Run (NewMonitor False)
     ([Recv (CopyTaskStartedEvent \<lparr>Schema = ''dbo'', Table = ''test''\<rparr>),
       Recv (CountUpdateEvent 10 \<lparr>Schema = ''dbo'', Table = ''test''\<rparr>)] @
      Recv (CopyTaskStartedEvent \<lparr>Schema = ''dbo'', Table = ''test''\<rparr>) # [CtxDone])
     = (Returned (Some (Errorf ''monitor already exists for table [dbo].[test]'')),
        \<lparr> ci = False,
          monitors = [(''[dbo].[test]'',
             SetTotalRows (NewProgressReporter \<lparr>Schema = ''dbo'', Table = ''test''\<rparr>) 10)],
          tickerRunning = True, lastRender = \<lparr> managedLines = 0, rowsCopied = [] \<rparr>,
          sortedTableKeys = [''[dbo].[test]''], w = [] \<rparr>)"
proof -
  let ?t = "\<lparr>Schema = ''dbo'', Table = ''test''\<rparr>"
  let ?pre = "[Recv (CopyTaskStartedEvent ?t), Recv (CountUpdateEvent 10 ?t)]"
  let ?m = "\<lparr> ci = False,
          monitors = [(''[dbo].[test]'', SetTotalRows (NewProgressReporter ?t) 10)],
          tickerRunning = True, lastRender = \<lparr> managedLines = 0, rowsCopied = [] \<rparr>,
          sortedTableKeys = [''[dbo].[test]''], w = [] \<rparr>"
  have k: "TableRef_String ?t = ''[dbo].[test]''"
    by (simp add: TableRef_String_def quoter_ID_def replace_char_def)
  have running: "Run (NewMonitor False) ?pre = (Waiting, ?m)"
    by (simp add: k NewMonitor_def)
  have registered: "map_of (monitors (NewMonitor False)) (TableRef_String ?t) \<noteq> None \<or>
                     (\<exists>t0. Recv (CopyTaskStartedEvent t0) \<in> set ?pre \<and>
                           TableRef_String t0 = TableRef_String ?t)"
    by simp
  from Run_duplicate_started [OF running registered, of "[CtxDone]"] running k
  show ?thesis by simp
qed

section \<open>Properties of the batched loader\<close>

subsection \<open>What each driver call does to the store\<close>

lemma driver_call_frame:
  "driver_call s d = (ok, d1) \<Longrightarrow>
   openTxs d1 = openTxs d \<and> tableRows d1 = tableRows d \<and> nextTx d1 = nextTx d \<and>
   foreignKeys d1 = foreignKeys d \<and> callLog d1 = callLog d @ [s]"
  by (auto simp: driver_call_def split: list.splits)

lemma txOpen_frame: "openTxs d1 = openTxs d \<Longrightarrow> txOpen t d1 = txOpen t d"
  by (simp add: txOpen_def)

lemma txRows_frame: "openTxs d1 = openTxs d \<Longrightarrow> txRows t d1 = txRows t d"
  by (simp add: txRows_def)

lemma db_BeginTx_Inr:
  "db_BeginTx d = (Inr t, d1) \<Longrightarrow>
   openTxs d1 = openTxs d @ [(t, [])] \<and> tableRows d1 = tableRows d \<and>
   foreignKeys d1 = foreignKeys d \<and> callLog d1 = callLog d @ [BeginTx]"
  by (auto simp: db_BeginTx_def split: prod.splits bool.splits dest!: driver_call_frame)

lemma db_BeginTx_Inl:
  "db_BeginTx d = (Inl e, d1) \<Longrightarrow>
   openTxs d1 = openTxs d \<and> tableRows d1 = tableRows d \<and>
   foreignKeys d1 = foreignKeys d \<and> callLog d1 = callLog d @ [BeginTx]"
  by (auto simp: db_BeginTx_def split: prod.splits bool.splits dest!: driver_call_frame)

lemma tx_Prepare_frame:
  "tx_Prepare t d = (res, d1) \<Longrightarrow>
   openTxs d1 = openTxs d \<and> tableRows d1 = tableRows d \<and>
   foreignKeys d1 = foreignKeys d \<and> callLog d1 = callLog d @ [PrepareCopyIn] \<and>
   (\<forall>s. res = Inr s \<longrightarrow> s = t \<and> txOpen t d)"
  by (auto simp: tx_Prepare_def txOpen_def split: prod.splits if_splits dest!: driver_call_frame)

lemma stmt_ExecContext_None:
  "stmt_ExecContext s r d = (None, d1) \<Longrightarrow>
   txOpen s d \<and> tableRows d1 = tableRows d \<and> foreignKeys d1 = foreignKeys d \<and>
   callLog d1 = callLog d @ [ExecRow r] \<and>
   openTxs d1 = map (\<lambda>(t, rows). if t = s then (t, rows @ [r]) else (t, rows)) (openTxs d)"
  by (auto simp: stmt_ExecContext_def txOpen_def split: prod.splits if_splits
           dest!: driver_call_frame)

lemma stmt_ExecContext_Some:
  "stmt_ExecContext s r d = (Some e, d1) \<Longrightarrow>
   openTxs d1 = openTxs d \<and> tableRows d1 = tableRows d \<and> foreignKeys d1 = foreignKeys d \<and>
   callLog d1 = callLog d @ [ExecRow r]"
  by (auto simp: stmt_ExecContext_def split: prod.splits if_splits dest!: driver_call_frame)

lemma stmt_Exec_frame:
  "stmt_Exec s d = (res, d1) \<Longrightarrow>
   openTxs d1 = openTxs d \<and> tableRows d1 = tableRows d \<and> foreignKeys d1 = foreignKeys d \<and>
   callLog d1 = callLog d @ [ExecFlush]"
  by (auto simp: stmt_Exec_def split: prod.splits if_splits dest!: driver_call_frame)

lemma stmt_Close_frame:
  "stmt_Close s d = (res, d1) \<Longrightarrow>
   openTxs d1 = openTxs d \<and> tableRows d1 = tableRows d \<and> foreignKeys d1 = foreignKeys d \<and>
   callLog d1 = callLog d @ [CloseStmt]"
  by (auto simp: stmt_Close_def split: prod.splits if_splits dest!: driver_call_frame)

lemma tx_Commit_None:
  "tx_Commit t d = (None, d1) \<Longrightarrow>
   txOpen t d \<and> tableRows d1 = tableRows d @ txRows t d \<and> foreignKeys d1 = foreignKeys d \<and>
   callLog d1 = callLog d @ [CommitTx] \<and>
   openTxs d1 = filter (\<lambda>(t', rows). t' \<noteq> t) (openTxs d)"
  by (auto simp: tx_Commit_def txOpen_def txRows_def split: prod.splits if_splits
           dest!: driver_call_frame)

lemma tx_Commit_Some:
  "tx_Commit t d = (Some e, d1) \<Longrightarrow>
   openTxs d1 = openTxs d \<and> tableRows d1 = tableRows d \<and> foreignKeys d1 = foreignKeys d \<and>
   callLog d1 = callLog d @ [CommitTx]"
  by (auto simp: tx_Commit_def split: prod.splits if_splits dest!: driver_call_frame)

lemma tx_Rollback_None:
  "tx_Rollback t d = (None, d1) \<Longrightarrow>
   txOpen t d \<and> tableRows d1 = tableRows d \<and> foreignKeys d1 = foreignKeys d \<and>
   callLog d1 = callLog d @ [RollbackTx] \<and>
   openTxs d1 = filter (\<lambda>(t', rows). t' \<noteq> t) (openTxs d)"
  by (auto simp: tx_Rollback_def txOpen_def split: prod.splits if_splits
           dest!: driver_call_frame)

lemma tx_Rollback_Some:
  "tx_Rollback t d = (Some e, d1) \<Longrightarrow>
   openTxs d1 = openTxs d \<and> tableRows d1 = tableRows d \<and> foreignKeys d1 = foreignKeys d \<and>
   callLog d1 = callLog d @ [RollbackTx]"
  by (auto simp: tx_Rollback_def split: prod.splits if_splits dest!: driver_call_frame)

subsection \<open>What \<open>Commit\<close>, \<open>Rollback\<close> and \<open>Insert\<close> do\<close>

lemma txOpen_single: "openTxs d = [(t, rows)] \<Longrightarrow> txOpen s d = (s = t)"
  by (auto simp: txOpen_def)

lemma txOpen_empty: "openTxs d = [] \<Longrightarrow> \<not> txOpen s d"
  by (simp add: txOpen_def)

lemma txRows_single: "openTxs d = [(t, rows)] \<Longrightarrow> txRows t d = rows"
  by (simp add: txRows_def)

lemma loader_inv_openTxs:
  "loader_inv bi d \<Longrightarrow>
   openTxs d = [] \<or> (\<exists>t rows. openTxs d = [(t, rows)] \<and> tx bi = Some t \<and>
                                int (length rows) = count bi)"
  by (auto simp: loader_inv_def split: list.splits)

lemma Commit_cases:
  assumes same: "stmt bi = tx bi"
    and shape: "openTxs d = [] \<or> (\<exists>t rows. openTxs d = [(t, rows)] \<and> tx bi = Some t)"
    and run: "Commit bi d = (res, bi', d')"
  shows "(stmt bi = None \<and> res = Inr None \<and> bi' = bi \<and> d' = d) \<or>
         (\<exists>t rows. res = Inr None \<and> tx bi = Some t \<and> openTxs d = [(t, rows)] \<and>
                    bi' = bi \<lparr> count := 0, stmt := None, tx := None \<rparr> \<and> openTxs d' = [] \<and>
                    tableRows d' = tableRows d @ rows \<and> foreignKeys d' = foreignKeys d) \<or>
         (\<exists>e. res = Inr (Some e) \<and> stmt bi \<noteq> None \<and> bi' = bi \<and> openTxs d' = openTxs d \<and>
               tableRows d' = tableRows d \<and> foreignKeys d' = foreignKeys d)"
proof (cases "stmt bi")
  case None
  with run show ?thesis by (simp add: Commit_def)
next
  case (Some s)
  with same have t: "tx bi = Some s" by simp
  obtain r1 d1 where e1: "stmt_Exec s d = (r1, d1)" by (cases "stmt_Exec s d")
  note f1 = stmt_Exec_frame [OF e1]
  show ?thesis
  proof (cases r1)
    case (Some e)
    with run \<open>stmt bi = Some s\<close> e1 f1 show ?thesis by (auto simp: Commit_def)
  next
    case None
    obtain r2 d2 where e2: "stmt_Close s d1 = (r2, d2)" by (cases "stmt_Close s d1")
    note f2 = stmt_Close_frame [OF e2]
    show ?thesis
    proof (cases r2)
      case (Some e)
      with run \<open>stmt bi = Some s\<close> \<open>r1 = None\<close> e1 e2 f1 f2 show ?thesis
        by (auto simp: Commit_def)
    next
      case None
      obtain r3 d3 where e3: "tx_Commit s d2 = (r3, d3)" by (cases "tx_Commit s d2")
      from run \<open>stmt bi = Some s\<close> \<open>r1 = None\<close> \<open>r2 = None\<close> e1 e2 e3 t
      have out: "(res, bi', d') =
                 (case r3 of Some e \<Rightarrow> (Inr (Some e), bi, d3)
                           | None \<Rightarrow> (Inr None, bi \<lparr> count := 0, stmt := None, tx := None \<rparr>, d3))"
        by (auto simp: Commit_def)
      show ?thesis
      proof (cases r3)
        case (Some e)
        with e3 have "tx_Commit s d2 = (Some e, d3)" by simp
        from tx_Commit_Some [OF this] out Some f1 f2 \<open>stmt bi = Some s\<close> show ?thesis by simp
      next
        case None
        with e3 have c: "tx_Commit s d2 = (None, d3)" by simp
        note f3 = tx_Commit_None [OF c]
        from f1 f2 have o2: "openTxs d2 = openTxs d" by simp
        from f3 o2 have "txOpen s d" by (simp add: txOpen_def)
        with shape t obtain rows where rows: "openTxs d = [(s, rows)]"
          by (auto simp: txOpen_def)
        from rows o2 have "txRows s d2 = rows" by (simp add: txRows_def)
        with f3 f2 f1 rows o2 out None t show ?thesis by simp
      qed
    qed
  qed
qed

lemma Rollback_cases:
  assumes run: "Rollback bi d = (res, bi', d')"
  shows "bi' = bi \<and> tableRows d' = tableRows d \<and> foreignKeys d' = foreignKeys d \<and>
         (openTxs d' = openTxs d \<or>
          (\<exists>t. tx bi = Some t \<and> openTxs d' = filter (\<lambda>(t', rows). t' \<noteq> t) (openTxs d)))"
proof (cases "tx bi")
  case None
  with run show ?thesis by (simp add: Rollback_def)
next
  case (Some t)
  obtain r1 d1 where e1: "tx_Rollback t d = (r1, d1)" by (cases "tx_Rollback t d")
  with run Some have out: "res = r1" "bi' = bi" "d' = d1" by (simp_all add: Rollback_def)
  show ?thesis
  proof (cases r1)
    case None
    with e1 have "tx_Rollback t d = (None, d1)" by simp
    from tx_Rollback_None [OF this] out Some show ?thesis by simp
  next
    case (Some e)
    with e1 have "tx_Rollback t d = (Some e, d1)" by simp
    from tx_Rollback_Some [OF this] out show ?thesis by simp
  qed
qed

text \<open>
  A call of \<open>getStmt\<close> that succeeds, on a loader that satisfies the invariant: afterwards
  exactly one transaction is open, the one the loader holds.
\<close>

lemma getStmt_Inr:
  assumes inv: "loader_inv bi d"
    and run: "getStmt bi d = (Inr s, bi1, d1)"
  shows "stmt bi1 = Some s \<and> tx bi1 = Some s \<and> count bi1 = count bi \<and>
         commitCount bi1 = commitCount bi \<and> table bi1 = table bi \<and> columns bi1 = columns bi \<and>
         tableRows d1 = tableRows d \<and> foreignKeys d1 = foreignKeys d \<and>
         (openTxs d1 = [] \<and> openTxs d = [] \<and> stmt bi \<noteq> None \<or>
          openTxs d1 = [(s, pending bi d)] \<and> int (length (pending bi d)) = count bi)"
proof (cases "stmt bi")
  case (Some s')
  with run have eq: "s' = s" "bi1 = bi" "d1 = d" by (simp_all add: getStmt_def)
  from inv Some have t: "tx bi = Some s'" by (simp add: loader_inv_def)
  from loader_inv_openTxs [OF inv] t
  have "openTxs d = [] \<or> (\<exists>rows. openTxs d = [(s', rows)] \<and> int (length rows) = count bi)"
    by auto
  with eq Some t show ?thesis
    by (auto simp: pending_def txRows_def)
next
  case None
  with inv have t: "tx bi = None" "count bi = 0" by (simp_all add: loader_inv_def)
  with loader_inv_openTxs [OF inv] have o: "openTxs d = []" by auto
  obtain r1 d0 where b: "db_BeginTx d = (r1, d0)" by (cases "db_BeginTx d")
  from run None b obtain t0 where r1: "r1 = Inr t0"
    by (cases r1) (simp_all add: getStmt_def)
  note fb = db_BeginTx_Inr [OF b [unfolded r1]]
  obtain r2 d2 where p: "tx_Prepare t0 d0 = (r2, d2)" by (cases "tx_Prepare t0 d0")
  note fp = tx_Prepare_frame [OF p]
  from run None b r1 p have r2: "r2 = Inr s" and eq: "bi1 = bi \<lparr> stmt := Some s, tx := Some t0 \<rparr>" "d1 = d2"
    by (cases r2; simp add: getStmt_def)+
  from fp r2 have "s = t0" by simp
  with fb fp eq o t show ?thesis by (simp add: pending_def)
qed

lemma go_rem_mod: "0 \<le> a \<Longrightarrow> 0 < b \<Longrightarrow> go_rem a b = a mod b"
  by (simp add: go_rem_def go_quot_def minus_mult_div_eq_mod)

lemma Insert_ok:
  assumes inv: "loader_inv bi d"
    and run: "Insert bi d r = (Inr None, bi', d')"
  shows "foreignKeys d' = foreignKeys d \<and> commitCount bi' = commitCount bi \<and>
         table bi' = table bi \<and> columns bi' = columns bi \<and>
         int (length (pending bi d)) = count bi \<and>
         (if count bi + 1 = 50000
          then count bi' = 0 \<and> stmt bi' = None \<and> tx bi' = None \<and> openTxs d' = [] \<and>
               tableRows d' = tableRows d @ pending bi d @ [map coerce r]
          else count bi' = count bi + 1 \<and> tableRows d' = tableRows d \<and>
               (\<exists>t. stmt bi' = Some t \<and> tx bi' = Some t \<and>
                    openTxs d' = [(t, pending bi d @ [map coerce r])]))"
proof -
  from inv have cc: "commitCount bi = 50000" and c0: "0 \<le> count bi" and c1: "count bi < 50000"
    by (simp_all add: loader_inv_def)
  obtain g bi1 d1 where g: "getStmt bi d = (g, bi1, d1)" by (cases "getStmt bi d")
  from run g obtain s where gs: "g = Inr s" by (cases g) (simp_all add: Insert_def)
  note G = getStmt_Inr [OF inv g [unfolded gs]]
  obtain x d2 where x: "stmt_ExecContext s (map coerce r) d1 = (x, d2)"
    by (cases "stmt_ExecContext s (map coerce r) d1")
  from run g gs x have xn: "x = None" by (cases x) (simp_all add: Insert_def)
  note X = stmt_ExecContext_None [OF x [unfolded xn]]
  from X G have o1: "openTxs d1 = [(s, pending bi d)]" and len: "int (length (pending bi d)) = count bi"
    by (auto simp: txOpen_def)
  with X have o2: "openTxs d2 = [(s, pending bi d @ [map coerce r])]" by simp
  let ?bi2 = "bi1 \<lparr> count := count bi1 + 1 \<rparr>"
  from G cc have cc2: "commitCount ?bi2 = 50000" by simp
  from G c0 c1 have rem: "go_rem (count ?bi2) (commitCount ?bi2) = (count bi + 1) mod 50000"
    using cc2 by (simp add: go_rem_mod)
  show ?thesis
  proof (cases "count bi + 1 = 50000")
    case True
    with rem have "go_rem (count ?bi2) (commitCount ?bi2) = 0" by simp
    with run g gs x xn cc2 have c: "Commit ?bi2 d2 = (Inr None, bi', d')"
      by (simp add: Insert_def Let_def)
    have same: "stmt ?bi2 = tx ?bi2" using G by simp
    have shape: "openTxs d2 = [] \<or> (\<exists>t rows. openTxs d2 = [(t, rows)] \<and> tx ?bi2 = Some t)"
      using o2 G by simp
    from Commit_cases [OF same shape c] G o2
    have "bi' = ?bi2 \<lparr> count := 0, stmt := None, tx := None \<rparr> \<and> openTxs d' = [] \<and>
          tableRows d' = tableRows d2 @ pending bi d @ [map coerce r] \<and>
          foreignKeys d' = foreignKeys d2"
      by auto
    with True X G cc len show ?thesis by simp
  next
    case False
    with c0 c1 have "(count bi + 1) mod 50000 \<noteq> 0" by simp
    with rem have "go_rem (count ?bi2) (commitCount ?bi2) \<noteq> 0" by simp
    with run g gs x xn cc2 have "bi' = ?bi2" "d' = d2"
      by (simp_all add: Insert_def Let_def)
    with False X G o2 cc len show ?thesis by simp
  qed
qed

lemma loader_inv_new: "openTxs d = [] \<Longrightarrow> loader_inv (NewBulkInsert tbl cols) d"
  by (simp add: loader_inv_def NewBulkInsert_def)

lemma loader_inv_Insert:
  assumes inv: "loader_inv bi d" and run: "Insert bi d r = (Inr None, bi', d')"
  shows "loader_inv bi' d'"
proof -
  from inv have cc: "commitCount bi = 50000" and c0: "0 \<le> count bi" and c1: "count bi < 50000"
    by (simp_all add: loader_inv_def)
  note I = Insert_ok [OF inv run]
  then have len: "int (length (pending bi d)) = count bi" by simp
  show ?thesis
  proof (cases "count bi + 1 = 50000")
    case True
    with I cc show ?thesis by (simp add: loader_inv_def)
  next
    case False
    with I cc c0 c1 len show ?thesis by (auto simp: loader_inv_def)
  qed
qed

lemma loader_inv_Commit:
  assumes inv: "loader_inv bi d" and run: "Commit bi d = (res, bi', d')"
  shows "loader_inv bi' d'"
proof -
  from inv have same: "stmt bi = tx bi" by (simp add: loader_inv_def)
  from loader_inv_openTxs [OF inv]
  have shape: "openTxs d = [] \<or> (\<exists>t rows. openTxs d = [(t, rows)] \<and> tx bi = Some t)"
    by auto
  from Commit_cases [OF same shape run] inv show ?thesis
    by (auto simp: loader_inv_def)
qed

lemma loader_inv_Rollback:
  assumes inv: "loader_inv bi d" and run: "Rollback bi d = (res, bi', d')"
  shows "loader_inv bi' d'"
proof -
  from Rollback_cases [OF run] loader_inv_openTxs [OF inv] inv show ?thesis
    by (auto simp: loader_inv_def)
qed

lemma reachable_inv: "reachable bi d \<Longrightarrow> loader_inv bi d"
proof (induction rule: reachable.induct)
  case (new d tbl cols)
  then show ?case by (rule loader_inv_new)
next
  case (insert bi d r bi' d')
  then show ?case by (blast intro: loader_inv_Insert)
next
  case (commit bi d res bi' d')
  then show ?case by (blast intro: loader_inv_Commit)
next
  case (rollback bi d res' bi' d')
  then show ?case by (blast intro: loader_inv_Rollback)
qed

subsection \<open>Runs of successful \<open>Insert\<close> calls\<close>

lemma InsertAll_snoc:
  "InsertAll bi d (rs @ [r]) =
     (case InsertAll bi d rs of
        (Inr None, bi1, d1) \<Rightarrow> Insert bi1 d1 r
      | failed \<Rightarrow> failed)"
proof (induction rs arbitrary: bi d)
  case Nil
  show ?case by (simp split: prod.splits sum.splits option.splits)
next
  case (Cons a rs)
  show ?case
  proof (cases "Insert bi d a")
    case (fields res bi1 d1)
    show ?thesis
    proof (cases "res = Inr None")
      case True
      with fields Cons.IH [of bi1 d1] show ?thesis by simp
    next
      case False
      with fields show ?thesis
        by (cases res) (auto split: option.splits)
    qed
  qed
qed

lemma InsertAll_snoc_ok:
  assumes "InsertAll bi d (rs @ [r]) = (Inr None, bi', d')"
  obtains bi1 d1 where "InsertAll bi d rs = (Inr None, bi1, d1)"
    and "Insert bi1 d1 r = (Inr None, bi', d')"
proof (cases "InsertAll bi d rs")
  case (fields res bi1 d1)
  show ?thesis
  proof (cases "res = Inr None")
    case True
    with fields assms that show ?thesis by (simp add: InsertAll_snoc)
  next
    case False
    with fields assms have False
      by (cases res) (auto simp: InsertAll_snoc split: option.splits)
    then show ?thesis ..
  qed
qed

text \<open>
  After \<open>n\<close> rows accepted by a new loader, the rows of the first \<open>50000 * (n div 50000)\<close>
  calls are committed to the table, in order and coerced; the others are in the open
  statement; the counter is \<open>n mod 50000\<close>.
\<close>

lemma InsertAll_new:
  assumes d0: "openTxs d0 = []"
    and run: "InsertAll (NewBulkInsert tbl cols) d0 rows = (Inr None, bi, d)"
  shows "loader_inv bi d \<and> reachable bi d \<and>
         count bi = int (length rows mod 50000) \<and>
         tableRows d = tableRows d0 @ map (map coerce) (take (50000 * (length rows div 50000)) rows) \<and>
         pending bi d = map (map coerce) (drop (50000 * (length rows div 50000)) rows) \<and>
         foreignKeys d = foreignKeys d0 \<and>
         (tx bi = None) = (length rows mod 50000 = 0) \<and>
         openTxs d = (case tx bi of None \<Rightarrow> [] | Some t \<Rightarrow> [(t, pending bi d)])"
  using run
proof (induction rows arbitrary: bi d rule: rev_induct)
  case Nil
  then have eq: "bi = NewBulkInsert tbl cols" "d = d0" by simp_all
  have "loader_inv (NewBulkInsert tbl cols) d0" using d0 by (rule loader_inv_new)
  moreover have "reachable (NewBulkInsert tbl cols) d0" using d0 by (rule reachable.new)
  moreover have "count (NewBulkInsert tbl cols) = 0" "pending (NewBulkInsert tbl cols) d0 = []"
    "tx (NewBulkInsert tbl cols) = None"
    by (simp_all add: pending_def NewBulkInsert_def)
  ultimately show ?case unfolding eq using d0 by simp
next
  case (snoc r rows)
  from snoc.prems obtain bi1 d1 where
    pre: "InsertAll (NewBulkInsert tbl cols) d0 rows = (Inr None, bi1, d1)"
    and ins: "Insert bi1 d1 r = (Inr None, bi, d)"
    by (rule InsertAll_snoc_ok)
  note IH = snoc.IH [OF pre]
  let ?n = "length rows"
  let ?k = "50000 * (?n div 50000)"
  from IH have inv1: "loader_inv bi1 d1" and re1: "reachable bi1 d1"
    and c1: "count bi1 = int (?n mod 50000)"
    and t1: "tableRows d1 = tableRows d0 @ map (map coerce) (take ?k rows)"
    and p1: "pending bi1 d1 = map (map coerce) (drop ?k rows)"
    and f1: "foreignKeys d1 = foreignKeys d0"
    by simp_all
  note I = Insert_ok [OF inv1 ins]
  have inv: "loader_inv bi d" by (rule loader_inv_Insert [OF inv1 ins])
  have re: "reachable bi d" by (rule reachable.insert [OF re1 ins])
  have k_le: "?k \<le> ?n" by simp
  show ?case
  proof (cases "count bi1 + 1 = 50000")
    case True
    with c1 have m: "?n mod 50000 = 49999" by simp
    then have full: "Suc ?n mod 50000 = 0" by (simp add: mod_Suc)
    then have k': "50000 * (Suc ?n div 50000) = Suc ?n" by (simp add: mod_0_imp_dvd)
    from I True have "count bi = 0" "tx bi = None" "openTxs d = []"
      "tableRows d = tableRows d1 @ pending bi1 d1 @ [map coerce r]" by simp_all
    moreover have "tableRows d1 @ pending bi1 d1 @ [map coerce r]
                   = tableRows d0 @ map (map coerce) (rows @ [r])"
    proof -
      have "map (map coerce) (take ?k rows) @ map (map coerce) (drop ?k rows)
            = map (map coerce) rows"
        by (simp only: map_append [symmetric] append_take_drop_id)
      then show ?thesis unfolding t1 p1 by simp
    qed
    ultimately show ?thesis
      using inv re full k' I f1 by (simp add: pending_def)
  next
    case False
    with c1 have m: "?n mod 50000 \<noteq> 49999" by simp
    then have md: "Suc ?n mod 50000 = Suc (?n mod 50000)" by (simp add: mod_Suc)
    from md have dv: "Suc ?n div 50000 = ?n div 50000" by (simp add: div_Suc)
    from I False obtain t where t: "tx bi = Some t" "openTxs d = [(t, pending bi1 d1 @ [map coerce r])]"
      and c: "count bi = count bi1 + 1" and tr: "tableRows d = tableRows d1"
      by auto
    from t have pd: "pending bi d = pending bi1 d1 @ [map coerce r]"
      by (simp add: pending_def txRows_def)
    with t have "openTxs d = (case tx bi of None \<Rightarrow> [] | Some t \<Rightarrow> [(t, pending bi d)])"
      by simp
    moreover from md t have "(tx bi = None) = (Suc ?n mod 50000 = 0)" by simp
    moreover from pd p1 k_le
    have "pending bi d = map (map coerce) (drop ?k (rows @ [r]))" by simp
    moreover from tr t1 k_le
    have "tableRows d = tableRows d0 @ map (map coerce) (take ?k (rows @ [r]))" by simp
    moreover from c c1 md have "count bi = int (Suc ?n mod 50000)" by simp
    ultimately show ?thesis
      using inv re dv I f1 by simp
  qed
qed


subsection \<open>The rows handed to the bulk statement\<close>





subsection \<open>Claims about the batched loader\<close>

text \<open>
  Claim C3.  A new loader on a store without open transactions satisfies the loader
  invariant; an \<open>Insert\<close> that returns \<open>nil\<close>, any \<open>Commit\<close> and any \<open>Rollback\<close> preserve it, so
  it holds in every state reached by such operations.  Under the invariant at most one
  transaction is open, and it is the one the loader holds with its statement.  An
  \<open>Insert\<close> that returns \<open>nil\<close> and makes the counter reach 50000 commits the open
  transaction (its rows, with the new one, go to the table and no transaction stays open)
  and resets the counter to zero; any other successful \<open>Insert\<close> adds one to the counter
  and commits nothing.  Hence after \<open>n\<close> successful \<open>Insert\<close> calls on a new loader the
  counter is \<open>n mod 50000\<close>, the first \<open>50000 * (n div 50000)\<close> rows are committed, and no
  transaction is open exactly when \<open>n\<close> is a multiple of 50000.
\<close>

theorem BulkInsert_threshold_single_transaction:
  "(openTxs d0 = [] \<longrightarrow> loader_inv (NewBulkInsert tbl cols) d0) \<and>
   (loader_inv bi d \<and> Insert bi d r = (Inr None, bi1, d1) \<longrightarrow>
      loader_inv bi1 d1 \<and>
      (if count bi + 1 = 50000
       then count bi1 = 0 \<and> stmt bi1 = None \<and> tx bi1 = None \<and> openTxs d1 = [] \<and>
            tableRows d1 = tableRows d @ pending bi d @ [map coerce r]
       else count bi1 = count bi + 1 \<and> tableRows d1 = tableRows d \<and>
            (\<exists>t. stmt bi1 = Some t \<and> tx bi1 = Some t \<and>
                 openTxs d1 = [(t, pending bi d @ [map coerce r])]))) \<and>
   (loader_inv bi d \<and> Commit bi d = (res2, bi2, d2) \<longrightarrow> loader_inv bi2 d2) \<and>
   (loader_inv bi d \<and> Rollback bi d = (res3, bi3, d3) \<longrightarrow> loader_inv bi3 d3) \<and>
   (reachable bi d \<longrightarrow> loader_inv bi d) \<and>
   (loader_inv bi d \<longrightarrow>
      length (openTxs d) \<le> 1 \<and> stmt bi = tx bi \<and>
      (\<forall>t rows. (t, rows) \<in> set (openTxs d) \<longrightarrow> tx bi = Some t)) \<and>
   (openTxs d0 = [] \<and> InsertAll (NewBulkInsert tbl cols) d0 rs = (Inr None, bi4, d4) \<longrightarrow>
      count bi4 = int (length rs mod 50000) \<and>
      tableRows d4 = tableRows d0 @ map (map coerce) (take (50000 * (length rs div 50000)) rs) \<and>
      pending bi4 d4 = map (map coerce) (drop (50000 * (length rs div 50000)) rs) \<and>
      (openTxs d4 = []) = (length rs mod 50000 = 0) \<and>
      length (openTxs d4) \<le> 1)"
proof (intro conjI impI)
  assume "openTxs d0 = []"
  then show "loader_inv (NewBulkInsert tbl cols) d0" by (rule loader_inv_new)
next
  assume a: "loader_inv bi d \<and> Insert bi d r = (Inr None, bi1, d1)"
  then show "loader_inv bi1 d1" by (blast intro: loader_inv_Insert)
  from a have "loader_inv bi d" "Insert bi d r = (Inr None, bi1, d1)" by simp_all
  from Insert_ok [OF this]
  show "if count bi + 1 = 50000
       then count bi1 = 0 \<and> stmt bi1 = None \<and> tx bi1 = None \<and> openTxs d1 = [] \<and>
            tableRows d1 = tableRows d @ pending bi d @ [map coerce r]
       else count bi1 = count bi + 1 \<and> tableRows d1 = tableRows d \<and>
            (\<exists>t. stmt bi1 = Some t \<and> tx bi1 = Some t \<and>
                 openTxs d1 = [(t, pending bi d @ [map coerce r])])"
    by simp
next
  assume "loader_inv bi d \<and> Commit bi d = (res2, bi2, d2)"
  then show "loader_inv bi2 d2" by (blast intro: loader_inv_Commit)
next
  assume "loader_inv bi d \<and> Rollback bi d = (res3, bi3, d3)"
  then show "loader_inv bi3 d3" by (blast intro: loader_inv_Rollback)
next
  assume "reachable bi d"
  then show "loader_inv bi d" by (rule reachable_inv)
next
  assume inv: "loader_inv bi d"
  from loader_inv_openTxs [OF inv] show "length (openTxs d) \<le> 1" by auto
  from inv show "stmt bi = tx bi" by (simp add: loader_inv_def)
  from loader_inv_openTxs [OF inv]
  show "\<forall>t rows. (t, rows) \<in> set (openTxs d) \<longrightarrow> tx bi = Some t" by auto
next
  assume a: "openTxs d0 = [] \<and> InsertAll (NewBulkInsert tbl cols) d0 rs = (Inr None, bi4, d4)"
  then have "openTxs d0 = []" "InsertAll (NewBulkInsert tbl cols) d0 rs = (Inr None, bi4, d4)"
    by simp_all
  note N = InsertAll_new [OF this]
  from N show "count bi4 = int (length rs mod 50000)" by simp
  from N show "tableRows d4 =
      tableRows d0 @ map (map coerce) (take (50000 * (length rs div 50000)) rs)" by simp
  from N show "pending bi4 d4 = map (map coerce) (drop (50000 * (length rs div 50000)) rs)"
    by simp
  from N have o: "openTxs d4 = (case tx bi4 of None \<Rightarrow> [] | Some t \<Rightarrow> [(t, pending bi4 d4)])"
    and t: "(tx bi4 = None) = (length rs mod 50000 = 0)" by simp_all
  from o t show "(openTxs d4 = []) = (length rs mod 50000 = 0)"
    by (cases "tx bi4") simp_all
  from o show "length (openTxs d4) \<le> 1" by (cases "tx bi4") simp_all
qed

text \<open>
  The witness: a loader that holds transaction 0 with 49999 rows accepts one more row;
  the transaction is committed with all 50000 rows and the counter is zero again.
\<close>

theorem BulkInsert_threshold_single_transaction_witness:
  "loader_inv
     \<lparr> table = \<lparr>Schema = ''dbo'', Table = ''t''\<rparr>, columns = [''price''], commitCount = 50000,
       count = 49999, stmt = Some 0, tx = Some 0 \<rparr>
     \<lparr> faults = [], callLog = [], nextTx = 1, openTxs = [(0, replicate 49999 [Str ''1''])],
       tableRows = [], foreignKeys = [] \<rparr> \<and>
   Insert
     \<lparr> table = \<lparr>Schema = ''dbo'', Table = ''t''\<rparr>, columns = [''price''], commitCount = 50000,
       count = 49999, stmt = Some 0, tx = Some 0 \<rparr>
     \<lparr> faults = [], callLog = [], nextTx = 1, openTxs = [(0, replicate 49999 [Str ''1''])],
       tableRows = [], foreignKeys = [] \<rparr>
     [Ptr (Bytes ''2'')]
   = (Inr None,
      \<lparr> table = \<lparr>Schema = ''dbo'', Table = ''t''\<rparr>, columns = [''price''], commitCount = 50000,
        count = 0, stmt = None, tx = None \<rparr>,
      \<lparr> faults = [], callLog = [ExecRow [Str ''2''], ExecFlush, CloseStmt, CommitTx], nextTx = 1,
        openTxs = [], tableRows = replicate 49999 [Str ''1''] @ [[Str ''2'']],
        foreignKeys = [] \<rparr>) \<and>
   loader_inv
      \<lparr> table = \<lparr>Schema = ''dbo'', Table = ''t''\<rparr>, columns = [''price''], commitCount = 50000,
        count = 0, stmt = None, tx = None \<rparr>
      \<lparr> faults = [], callLog = [ExecRow [Str ''2''], ExecFlush, CloseStmt, CommitTx], nextTx = 1,
        openTxs = [], tableRows = replicate 49999 [Str ''1''] @ [[Str ''2'']],
        foreignKeys = [] \<rparr>"
proof -
  let ?bi = "\<lparr> table = \<lparr>Schema = ''dbo'', Table = ''t''\<rparr>, columns = [''price''],
       commitCount = 50000, count = 49999, stmt = Some 0, tx = Some 0 \<rparr>"
  let ?d = "\<lparr> faults = [], callLog = [], nextTx = 1,
       openTxs = [(0, replicate 49999 [Str ''1''])], tableRows = [], foreignKeys = [] \<rparr>"
  let ?bi1 = "\<lparr> table = \<lparr>Schema = ''dbo'', Table = ''t''\<rparr>, columns = [''price''],
       commitCount = 50000, count = 0, stmt = None, tx = None \<rparr>"
  let ?d1 = "\<lparr> faults = [], callLog = [ExecRow [Str ''2''], ExecFlush, CloseStmt, CommitTx],
       nextTx = 1, openTxs = [],
       tableRows = replicate 49999 [Str ''1''] @ [[Str ''2'']], foreignKeys = [] \<rparr>"
  have inv: "loader_inv ?bi ?d" by (simp add: loader_inv_def)
  have run: "Insert ?bi ?d [Ptr (Bytes ''2'')] = (Inr None, ?bi1, ?d1)"
    by (simp add: Insert_def getStmt_def stmt_ExecContext_def driver_call_def txOpen_def
          go_rem_def go_quot_def Commit_def stmt_Exec_def stmt_Close_def tx_Commit_def
          txRows_def)
  from BulkInsert_threshold_single_transaction
         [where bi = ?bi and d = ?d and r = "[Ptr (Bytes ''2'')]" and ?bi1.0 = ?bi1 and ?d1.0 = ?d1]
       inv run
  have "loader_inv ?bi1 ?d1" by blast
  with inv run show ?thesis by blast
qed




text \<open>
  Claim C9.  \<open>Rollback\<close> on a loader that holds no transaction returns the error
  \<open>no active transaction to rollback\<close>; it touches neither the loader nor the store, and
  the only dereference of the transaction pointer is behind the \<open>nil\<close> test, so there is
  no panic.  A new loader holds no transaction, and neither does a loader that satisfies
  the invariant after a \<open>Commit\<close> that returned \<open>nil\<close>.
\<close>

theorem Rollback_without_transaction:
  "(tx bi = None \<longrightarrow>
      Rollback bi d = (Some (Errorf ''no active transaction to rollback''), bi, d)) \<and>
   Rollback (NewBulkInsert tbl cols) d
     = (Some (Errorf ''no active transaction to rollback''), NewBulkInsert tbl cols, d) \<and>
   (loader_inv bi d \<and> Commit bi d = (Inr None, bi', d') \<longrightarrow>
      Rollback bi' d'
        = (Some (Errorf ''no active transaction to rollback''), bi', d'))"
proof (intro conjI impI)
  show "Rollback bi d = (Some (Errorf ''no active transaction to rollback''), bi, d)"
    if "tx bi = None"
    using that by (simp add: Rollback_def)
  show "Rollback (NewBulkInsert tbl cols) d
     = (Some (Errorf ''no active transaction to rollback''), NewBulkInsert tbl cols, d)"
    by (simp add: Rollback_def NewBulkInsert_def)
  show "Rollback bi' d' = (Some (Errorf ''no active transaction to rollback''), bi', d')"
    if a: "loader_inv bi d \<and> Commit bi d = (Inr None, bi', d')"
  proof -
    from a have inv: "loader_inv bi d" and run: "Commit bi d = (Inr None, bi', d')" by simp_all
    from inv have same: "stmt bi = tx bi" by (simp add: loader_inv_def)
    from loader_inv_openTxs [OF inv]
    have shape: "openTxs d = [] \<or> (\<exists>t rows. openTxs d = [(t, rows)] \<and> tx bi = Some t)"
      by auto
    from Commit_cases [OF same shape run] same have "tx bi' = None" by auto
    then show ?thesis by (simp add: Rollback_def)
  qed
qed

theorem Rollback_without_transaction_witness:
  "loader_inv
     \<lparr> table = \<lparr>Schema = ''dbo'', Table = ''t''\<rparr>, columns = [''id''], commitCount = 50000,
       count = 1, stmt = Some 0, tx = Some 0 \<rparr>
     \<lparr> faults = [], callLog = [], nextTx = 1, openTxs = [(0, [[Integer 1]])],
       tableRows = [], foreignKeys = [] \<rparr> \<and>
   Commit
     \<lparr> table = \<lparr>Schema = ''dbo'', Table = ''t''\<rparr>, columns = [''id''], commitCount = 50000,
       count = 1, stmt = Some 0, tx = Some 0 \<rparr>
     \<lparr> faults = [], callLog = [], nextTx = 1, openTxs = [(0, [[Integer 1]])],
       tableRows = [], foreignKeys = [] \<rparr>
   = (Inr None,
      \<lparr> table = \<lparr>Schema = ''dbo'', Table = ''t''\<rparr>, columns = [''id''], commitCount = 50000,
        count = 0, stmt = None, tx = None \<rparr>,
      \<lparr> faults = [], callLog = [ExecFlush, CloseStmt, CommitTx], nextTx = 1, openTxs = [],
        tableRows = [[Integer 1]], foreignKeys = [] \<rparr>) \<and>
   Rollback
      \<lparr> table = \<lparr>Schema = ''dbo'', Table = ''t''\<rparr>, columns = [''id''], commitCount = 50000,
        count = 0, stmt = None, tx = None \<rparr>
      \<lparr> faults = [], callLog = [ExecFlush, CloseStmt, CommitTx], nextTx = 1, openTxs = [],
        tableRows = [[Integer 1]], foreignKeys = [] \<rparr>
   = (Some (Errorf ''no active transaction to rollback''),
      \<lparr> table = \<lparr>Schema = ''dbo'', Table = ''t''\<rparr>, columns = [''id''], commitCount = 50000,
        count = 0, stmt = None, tx = None \<rparr>,
      \<lparr> faults = [], callLog = [ExecFlush, CloseStmt, CommitTx], nextTx = 1, openTxs = [],
        tableRows = [[Integer 1]], foreignKeys = [] \<rparr>)"
proof -
  let ?bi = "\<lparr> table = \<lparr>Schema = ''dbo'', Table = ''t''\<rparr>, columns = [''id''],
       commitCount = 50000, count = 1, stmt = Some 0, tx = Some 0 \<rparr>"
  let ?d = "\<lparr> faults = [], callLog = [], nextTx = 1, openTxs = [(0, [[Integer 1]])],
       tableRows = [], foreignKeys = [] \<rparr>"
  let ?bi' = "\<lparr> table = \<lparr>Schema = ''dbo'', Table = ''t''\<rparr>, columns = [''id''],
       commitCount = 50000, count = 0, stmt = None, tx = None \<rparr>"
  let ?d' = "\<lparr> faults = [], callLog = [ExecFlush, CloseStmt, CommitTx], nextTx = 1,
       openTxs = [], tableRows = [[Integer 1]], foreignKeys = [] \<rparr>"
  have inv: "loader_inv ?bi ?d" by (simp add: loader_inv_def)
  have run: "Commit ?bi ?d = (Inr None, ?bi', ?d')"
    by (simp add: Commit_def stmt_Exec_def stmt_Close_def tx_Commit_def driver_call_def
          txOpen_def txRows_def)
  from Rollback_without_transaction [where bi = ?bi and d = ?d and bi' = ?bi' and d' = ?d']
       inv run
  have "Rollback ?bi' ?d' = (Some (Errorf ''no active transaction to rollback''), ?bi', ?d')"
    by blast
  with inv run show ?thesis by blast
qed

section \<open>Properties of the writer stage\<close>

lemma quiet_refl: "quiet d d"
  by (simp add: quiet_def)

lemma quiet_trans: "quiet d d1 \<Longrightarrow> quiet d1 d2 \<Longrightarrow> quiet d d2"
  by (fastforce simp: quiet_def)

lemma quiet_step: "callLog d1 = callLog d @ [s] \<Longrightarrow> \<not> is_setup s \<Longrightarrow> quiet d d1"
  by (simp add: quiet_def)

lemma getStmt_quiet:
  assumes "getStmt bi d = (g, bi1, d1)"
  shows "quiet d d1"
proof (cases "stmt bi")
  case (Some s)
  with assms show ?thesis by (simp add: getStmt_def quiet_refl)
next
  case None
  obtain r1 d0 where b: "db_BeginTx d = (r1, d0)" by (cases "db_BeginTx d")
  show ?thesis
  proof (cases r1)
    case (Inl e)
    with assms None b have "d1 = d0" by (simp add: getStmt_def)
    with db_BeginTx_Inl [of d e d0] b Inl show ?thesis by (simp add: quiet_step)
  next
    case (Inr t)
    obtain r2 d2 where p: "tx_Prepare t d0 = (r2, d2)" by (cases "tx_Prepare t d0")
    from assms None b Inr p have "d1 = d2"
      by (cases r2) (auto simp: getStmt_def)
    moreover have "quiet d d0"
      using db_BeginTx_Inr [OF b [unfolded Inr]] by (simp add: quiet_step)
    moreover have "quiet d0 d2"
      using tx_Prepare_frame [OF p] by (simp add: quiet_step)
    ultimately show ?thesis by (blast intro: quiet_trans)
  qed
qed

lemma Commit_quiet:
  assumes "Commit bi d = (res, bi', d')"
  shows "quiet d d'"
proof (cases "stmt bi")
  case None
  with assms show ?thesis by (simp add: Commit_def quiet_refl)
next
  case (Some s)
  obtain r1 d1 where e1: "stmt_Exec s d = (r1, d1)" by (cases "stmt_Exec s d")
  obtain r2 d2 where e2: "stmt_Close s d1 = (r2, d2)" by (cases "stmt_Close s d1")
  have q1: "quiet d d1" using stmt_Exec_frame [OF e1] by (simp add: quiet_step)
  have "quiet d1 d2" using stmt_Close_frame [OF e2] by (simp add: quiet_step)
  with q1 have q2: "quiet d d2" by (rule quiet_trans)
  show ?thesis
  proof (cases "tx bi")
    case None
    with assms Some e1 e2 q1 q2 show ?thesis
      by (auto simp: Commit_def split: option.splits)
  next
    case (Some t)
    obtain r3 d3 where e3: "tx_Commit t d2 = (r3, d3)" by (cases "tx_Commit t d2")
    have "quiet d2 d3"
    proof (cases r3)
      case None
      with tx_Commit_None [of t d2 d3] e3 show ?thesis by (simp add: quiet_step)
    next
      case (Some e)
      with tx_Commit_Some [of t d2 e d3] e3 show ?thesis by (simp add: quiet_step)
    qed
    with q2 have q3: "quiet d d3" by (rule quiet_trans)
    from assms \<open>stmt bi = Some s\<close> Some e1 e2 e3 q1 q2 q3 show ?thesis
      by (auto simp: Commit_def split: option.splits)
  qed
qed

lemma Insert_quiet:
  assumes run: "Insert bi d r = (res, bi', d')"
  shows "quiet d d'"
proof -
  obtain g bi1 d1 where g: "getStmt bi d = (g, bi1, d1)" by (cases "getStmt bi d")
  note q1 = getStmt_quiet [OF g]
  show ?thesis
  proof (cases g)
    case (Inl e)
    with run g q1 show ?thesis by (auto simp: Insert_def)
  next
    case (Inr s)
    obtain x d2 where x: "stmt_ExecContext s (map coerce r) d1 = (x, d2)"
      by (cases "stmt_ExecContext s (map coerce r) d1")
    have "quiet d1 d2"
    proof (cases x)
      case None
      with stmt_ExecContext_None [of s "map coerce r" d1 d2] x show ?thesis
        by (simp add: quiet_step)
    next
      case (Some e)
      with stmt_ExecContext_Some [of s "map coerce r" d1 e d2] x show ?thesis
        by (simp add: quiet_step)
    qed
    with q1 have q2: "quiet d d2" by (rule quiet_trans)
    show ?thesis
    proof (cases x)
      case (Some e)
      with run g Inr x q2 show ?thesis by (auto simp: Insert_def)
    next
      case None
      let ?bi2 = "bi1 \<lparr> count := count bi1 + 1 \<rparr>"
      obtain c bi3 d3 where c: "Commit ?bi2 d2 = (c, bi3, d3)" by (cases "Commit ?bi2 d2")
      from Commit_quiet [OF c] q2 have q3: "quiet d d3" by (blast intro: quiet_trans)
      from run g Inr x None c have "d' = d2 \<or> d' = d3"
        by (auto simp: Insert_def Let_def split: if_splits)
      with q2 q3 show ?thesis by auto
    qed
  qed
qed

lemma Rollback_quiet:
  assumes run: "Rollback bi d = (res, bi', d')"
  shows "quiet d d'"
proof (cases "tx bi")
  case None
  with run show ?thesis by (simp add: Rollback_def quiet_refl)
next
  case (Some t)
  obtain r1 d1 where e1: "tx_Rollback t d = (r1, d1)" by (cases "tx_Rollback t d")
  with run Some have out: "d' = d1" by (simp add: Rollback_def)
  show ?thesis
  proof (cases r1)
    case None
    with tx_Rollback_None [of t d d1] e1 out show ?thesis by (simp add: quiet_step)
  next
    case (Some e)
    with tx_Rollback_Some [of t d e d1] e1 out show ?thesis by (simp add: quiet_step)
  qed
qed

lemma AddForeignKey_quiet: "AddForeignKey fk d = (res, d') \<Longrightarrow> quiet d d'"
  by (auto simp: AddForeignKey_def split: prod.splits if_splits
           dest!: driver_call_frame intro!: quiet_step)

lemma AddForeignKeys_quiet: "AddForeignKeys fks d = (res, d') \<Longrightarrow> quiet d d'"
proof (induction fks arbitrary: d)
  case Nil
  then show ?case by (simp add: quiet_refl)
next
  case (Cons fk fks)
  obtain r1 d1 where a: "AddForeignKey fk d = (r1, d1)" by (cases "AddForeignKey fk d")
  note q1 = AddForeignKey_quiet [OF a]
  show ?case
  proof (cases r1)
    case None
    with Cons.prems a have "AddForeignKeys fks d1 = (res, d')" by simp
    from Cons.IH [OF this] q1 show ?thesis by (blast intro: quiet_trans)
  next
    case (Some e)
    with Cons.prems a q1 show ?thesis by simp
  qed
qed

text \<open>After the first row the loop issues no statement of the setup any more.\<close>

lemma writerLoop_quiet:
  "i \<noteq> 0 \<Longrightarrow> writerLoop tbl bi i fks d evs rs = (p, evs', d') \<Longrightarrow> quiet d d'"
proof (induction rs arbitrary: bi i fks d evs)
  case Nil
  obtain c bi1 d1 where c: "Commit bi d = (c, bi1, d1)" by (cases "Commit bi d")
  note q1 = Commit_quiet [OF c]
  show ?case
  proof (cases c)
    case (Inl pn)
    with Nil.prems c q1 show ?thesis by simp
  next
    case (Inr eo)
    show ?thesis
    proof (cases eo)
      case (Some e)
      with Nil.prems c Inr q1 show ?thesis by simp
    next
      case None
      obtain a d2 where a: "AddForeignKeys fks d1 = (a, d2)" by (cases "AddForeignKeys fks d1")
      from AddForeignKeys_quiet [OF a] q1 have q2: "quiet d d2" by (blast intro: quiet_trans)
      from Nil.prems c Inr None a have "d' = d1 \<or> d' = d2"
        by (auto split: if_splits option.splits)
      with q1 q2 show ?thesis by auto
    qed
  qed
next
  case (Cons r rs)
  obtain x bi1 d2 where x: "Insert bi d r = (x, bi1, d2)" by (cases "Insert bi d r")
  note q1 = Insert_quiet [OF x]
  show ?case
  proof (cases x)
    case (Inl pn)
    with Cons.prems x q1 show ?thesis by simp
  next
    case (Inr eo)
    show ?thesis
    proof (cases eo)
      case (Some e)
      obtain ig bi2 d3 where rb: "Rollback bi1 d2 = (ig, bi2, d3)" by (cases "Rollback bi1 d2")
      from Rollback_quiet [OF rb] q1 have "quiet d d3" by (blast intro: quiet_trans)
      with Cons.prems x Inr Some rb show ?thesis by simp
    next
      case None
      with Cons.prems x Inr
      have "writerLoop tbl bi1 (i + 1) fks d2 (evs @ [ProgressUpdateEvent 1 tbl]) rs = (p, evs', d')"
        by simp
      from Cons.IH [OF _ this] q1 show ?thesis by (auto intro: quiet_trans)
    qed
  qed
qed

subsection \<open>The setup when no driver call fails\<close>

lemma driver_call_no_faults:
  "faults d = [] \<Longrightarrow> driver_call s d = (True, d \<lparr> callLog := callLog d @ [s] \<rparr>)"
  by (simp add: driver_call_def)

lemma DropAll_no_faults:
  "faults d = [] \<Longrightarrow>
   \<exists>d'. DropAll fks d = (None, d') \<and> faults d' = [] \<and>
        callLog d' = callLog d @ map (\<lambda>fk. DropConstraint (fkName fk)) fks \<and>
        tableRows d' = tableRows d"
proof (induction fks arbitrary: d)
  case Nil
  then show ?case by simp
next
  case (Cons fk fks)
  let ?d1 = "d \<lparr> callLog := callLog d @ [DropConstraint (fkName fk)] \<rparr>"
  let ?d2 = "?d1 \<lparr> foreignKeys :=
                  filter (\<lambda>k. \<not> (fkName k = fkName fk \<and> fkSchema k = fkSchema fk \<and>
                                   fkTable k = fkTable fk)) (foreignKeys ?d1) \<rparr>"
  from Cons.prems have s: "DropForeignKey fk d = (None, ?d2)"
    by (simp add: DropForeignKey_def driver_call_no_faults)
  from Cons.prems have "faults ?d2 = []" by simp
  from Cons.IH [OF this] obtain d' where
    "DropAll fks ?d2 = (None, d')" "faults d' = []"
    "callLog d' = callLog ?d2 @ map (\<lambda>fk. DropConstraint (fkName fk)) fks"
    "tableRows d' = tableRows ?d2"
    by blast
  with s show ?case by simp
qed

lemma prepareTarget_no_faults:
  assumes "faults d = []"
  shows "fst (prepareTarget tbl d) = Inr (filter (references tbl) (foreignKeys d)) \<and>
         callLog (snd (prepareTarget tbl d)) =
           callLog d @ [QueryReferencedForeignKeys, QueryReferencedForeignKeys] @
             map (\<lambda>fk. DropConstraint (fkName fk)) (filter (references tbl) (foreignKeys d)) @
             [TruncateTable] \<and>
         tableRows (snd (prepareTarget tbl d)) = []"
proof -
  let ?fks = "filter (references tbl) (foreignKeys d)"
  let ?d1 = "d \<lparr> callLog := callLog d @ [QueryReferencedForeignKeys] \<rparr>"
  let ?d2 = "?d1 \<lparr> callLog := callLog ?d1 @ [QueryReferencedForeignKeys] \<rparr>"
  from assms have g1: "GetReferencedForeignKeys tbl d = (Inr ?fks, ?d1)"
    by (simp add: GetReferencedForeignKeys_def driver_call_no_faults)
  from assms have g2: "GetReferencedForeignKeys tbl ?d1 = (Inr ?fks, ?d2)"
    by (simp add: GetReferencedForeignKeys_def driver_call_no_faults)
  from assms have "faults ?d2 = []" by simp
  from DropAll_no_faults [OF this, of ?fks] obtain d3 where
    dr: "DropAll ?fks ?d2 = (None, d3)" and f3: "faults d3 = []"
    and l3: "callLog d3 = callLog ?d2 @ map (\<lambda>fk. DropConstraint (fkName fk)) ?fks"
    by blast
  from g2 dr have d: "DropReferencedForeignKeys tbl ?d1 = (None, d3)"
    by (simp add: DropReferencedForeignKeys_def)
  from f3 have e: "EmptyTable tbl d3 =
      (None, d3 \<lparr> callLog := callLog d3 @ [TruncateTable], tableRows := [] \<rparr>)"
    by (simp add: EmptyTable_def driver_call_no_faults)
  from g1 d e have "prepareTarget tbl d =
      (Inr ?fks, d3 \<lparr> callLog := callLog d3 @ [TruncateTable], tableRows := [] \<rparr>)"
    by (simp add: prepareTarget_def)
  with l3 show ?thesis by simp
qed

text \<open>
  Claim C1.  When the data channel closes before any row is received, the writer issues no
  statement at all: no foreign-key lookup, no drop, no truncate (and no transaction); the
  store of the target, with the rows of the table and the foreign keys, is exactly as
  before, and the task-finished event is sent.  When at least one row is received, the
  statements of the setup are those issued on the first row, before any other statement;
  nothing after them is a lookup, a drop or a truncate.  If no driver call fails, the
  setup on the first row is the lookup (twice, once more inside the drop), one drop per
  referencing foreign key, and the truncate, which leaves the table empty.
\<close>

theorem writer_setup_only_on_first_row:
  "writer tbl cols d [] = (None, [CopyTaskFinishedEvent tbl], d) \<and>
   (writer tbl cols d (r # rs) = (p, evs, d') \<longrightarrow>
      (\<exists>rest. callLog d' = callLog (snd (prepareTarget tbl d)) @ rest \<and>
              (\<forall>c \<in> set rest. \<not> is_setup c))) \<and>
   (faults d = [] \<longrightarrow>
      callLog (snd (prepareTarget tbl d)) =
        callLog d @ [QueryReferencedForeignKeys, QueryReferencedForeignKeys] @
          map (\<lambda>fk. DropConstraint (fkName fk)) (filter (references tbl) (foreignKeys d)) @
          [TruncateTable] \<and>
      tableRows (snd (prepareTarget tbl d)) = [])"
proof (intro conjI impI)
  show "writer tbl cols d [] = (None, [CopyTaskFinishedEvent tbl], d)"
    by (simp add: writer_def NewBulkInsert_def Commit_def)
next
  assume run: "writer tbl cols d (r # rs) = (p, evs, d')"
  obtain y d1 where pt: "prepareTarget tbl d = (y, d1)" by (cases "prepareTarget tbl d")
  have "quiet d1 d'"
  proof (cases y)
    case (Inl msg)
    with run pt have "d' = d1" by (simp add: writer_def)
    then show ?thesis by (simp add: quiet_refl)
  next
    case (Inr fks1)
    let ?bi = "NewBulkInsert tbl cols"
    obtain x bi1 d2 where x: "Insert ?bi d1 r = (x, bi1, d2)" by (cases "Insert ?bi d1 r")
    note q1 = Insert_quiet [OF x]
    show ?thesis
    proof (cases x)
      case (Inl pn)
      with run pt Inr x q1 show ?thesis by (simp add: writer_def)
    next
      case (Inr eo)
      show ?thesis
      proof (cases eo)
        case (Some e)
        obtain ig bi2 d3 where rb: "Rollback bi1 d2 = (ig, bi2, d3)"
          by (cases "Rollback bi1 d2")
        from Rollback_quiet [OF rb] q1 have "quiet d1 d3" by (blast intro: quiet_trans)
        with run pt \<open>y = Inr fks1\<close> x Inr Some rb show ?thesis by (simp add: writer_def)
      next
        case None
        with run pt \<open>y = Inr fks1\<close> x Inr
        have "writerLoop tbl bi1 (Suc 0) fks1 d2 [ProgressUpdateEvent 1 tbl] rs = (p, evs, d')"
          by (simp add: writer_def)
        from writerLoop_quiet [OF _ this] q1 show ?thesis by (auto intro: quiet_trans)
      qed
    qed
  qed
  with pt show "\<exists>rest. callLog d' = callLog (snd (prepareTarget tbl d)) @ rest \<and>
              (\<forall>c \<in> set rest. \<not> is_setup c)"
    by (simp add: quiet_def)
next
  assume "faults d = []"
  from prepareTarget_no_faults [OF this, of tbl]
  show "callLog (snd (prepareTarget tbl d)) =
        callLog d @ [QueryReferencedForeignKeys, QueryReferencedForeignKeys] @
          map (\<lambda>fk. DropConstraint (fkName fk)) (filter (references tbl) (foreignKeys d)) @
          [TruncateTable]"
    and "tableRows (snd (prepareTarget tbl d)) = []"
    by simp_all
qed

theorem writer_setup_only_on_first_row_witness:
  "faults \<lparr> faults = [], callLog = [], nextTx = 0, openTxs = [], tableRows = [[Integer 9]],
       foreignKeys = [\<lparr> fkName = ''fk1'', fkSchema = ''dbo'', fkTable = ''child'',
          fkColumn = ''pid'', fkReferencedSchema = ''dbo'', fkReferencedTable = ''t'',
          fkReferencedColumn = ''id'', fkNoCheck = ''0'' \<rparr>] \<rparr> = [] \<and>
   writer \<lparr>Schema = ''dbo'', Table = ''t''\<rparr> [''id'']
     \<lparr> faults = [], callLog = [], nextTx = 0, openTxs = [], tableRows = [[Integer 9]],
       foreignKeys = [\<lparr> fkName = ''fk1'', fkSchema = ''dbo'', fkTable = ''child'',
          fkColumn = ''pid'', fkReferencedSchema = ''dbo'', fkReferencedTable = ''t'',
          fkReferencedColumn = ''id'', fkNoCheck = ''0'' \<rparr>] \<rparr> []
   = (None, [CopyTaskFinishedEvent \<lparr>Schema = ''dbo'', Table = ''t''\<rparr>],
      \<lparr> faults = [], callLog = [], nextTx = 0, openTxs = [], tableRows = [[Integer 9]],
        foreignKeys = [\<lparr> fkName = ''fk1'', fkSchema = ''dbo'', fkTable = ''child'',
          fkColumn = ''pid'', fkReferencedSchema = ''dbo'', fkReferencedTable = ''t'',
          fkReferencedColumn = ''id'', fkNoCheck = ''0'' \<rparr>] \<rparr>) \<and>
   callLog (snd (prepareTarget \<lparr>Schema = ''dbo'', Table = ''t''\<rparr>
     \<lparr> faults = [], callLog = [], nextTx = 0, openTxs = [], tableRows = [[Integer 9]],
       foreignKeys = [\<lparr> fkName = ''fk1'', fkSchema = ''dbo'', fkTable = ''child'',
          fkColumn = ''pid'', fkReferencedSchema = ''dbo'', fkReferencedTable = ''t'',
          fkReferencedColumn = ''id'', fkNoCheck = ''0'' \<rparr>] \<rparr>))
   = [QueryReferencedForeignKeys, QueryReferencedForeignKeys, DropConstraint ''fk1'',
      TruncateTable] \<and>
   tableRows (snd (prepareTarget \<lparr>Schema = ''dbo'', Table = ''t''\<rparr>
     \<lparr> faults = [], callLog = [], nextTx = 0, openTxs = [], tableRows = [[Integer 9]],
       foreignKeys = [\<lparr> fkName = ''fk1'', fkSchema = ''dbo'', fkTable = ''child'',
          fkColumn = ''pid'', fkReferencedSchema = ''dbo'', fkReferencedTable = ''t'',
          fkReferencedColumn = ''id'', fkNoCheck = ''0'' \<rparr>] \<rparr>)) = []"
proof -
  let ?t = "\<lparr>Schema = ''dbo'', Table = ''t''\<rparr>"
  let ?d = "\<lparr> faults = [], callLog = [], nextTx = 0, openTxs = [], tableRows = [[Integer 9]],
       foreignKeys = [\<lparr> fkName = ''fk1'', fkSchema = ''dbo'', fkTable = ''child'',
          fkColumn = ''pid'', fkReferencedSchema = ''dbo'', fkReferencedTable = ''t'',
          fkReferencedColumn = ''id'', fkNoCheck = ''0'' \<rparr>] \<rparr>"
  have f: "faults ?d = []" by simp
  note W = writer_setup_only_on_first_row [where tbl = ?t and cols = "[''id'']" and d = ?d]
  from W have e: "writer ?t [''id''] ?d [] = (None, [CopyTaskFinishedEvent ?t], ?d)"
    by (rule conjunct1)
  from W f have
    "callLog (snd (prepareTarget ?t ?d)) =
        callLog ?d @ [QueryReferencedForeignKeys, QueryReferencedForeignKeys] @
          map (\<lambda>fk. DropConstraint (fkName fk)) (filter (references ?t) (foreignKeys ?d)) @
          [TruncateTable]"
    and t: "tableRows (snd (prepareTarget ?t ?d)) = []"
    by blast+
  then have l: "callLog (snd (prepareTarget ?t ?d)) =
      [QueryReferencedForeignKeys, QueryReferencedForeignKeys, DropConstraint ''fk1'',
       TruncateTable]"
    by (simp add: references_def)
  from f e l t show ?thesis by (intro conjI)
qed

section \<open>Properties of the filter parser\<close>

subsection \<open>Tokens and the part builder\<close>

lemma strings_Split_not_Nil: "strings_Split s sep \<noteq> []"
  by (induction s) (auto split: list.splits)

lemma strings_Split_sep_free: "t \<in> set (strings_Split s sep) \<Longrightarrow> sep \<notin> set t"
  by (induction s arbitrary: t) (auto split: if_splits list.splits)

lemma builder_Nil: "builder [] = []"
  by (simp add: builder_def)

lemma builder_snoc: "builder (ts @ [t]) = builder ts @ t @ '' ''"
  by (simp add: builder_def)

lemma builder_Cons: "builder (t # ts) = t @ CHR '' '' # builder ts"
  by (simp add: builder_def)

lemma builder_eq_Nil: "(builder ts = []) = (ts = [])"
  by (cases ts) (simp_all add: builder_def)

lemma trim_space_free:
  assumes "s \<noteq> []" "CHR '' '' \<notin> set s"
  shows "strings_Trim s '' '' = s"
proof -
  from assms have h: "hd s \<noteq> CHR '' ''" "last s \<noteq> CHR '' ''"
    by (metis hd_in_set, metis last_in_set)
  from assms h have "dropWhile (\<lambda>c. c \<in> set '' '') s = s"
    by (simp add: dropWhile_eq_self_iff)
  moreover from assms h have "dropWhile (\<lambda>c. c \<in> set '' '') (rev s) = rev s"
    by (simp add: dropWhile_eq_self_iff hd_rev)
  ultimately show ?thesis by (simp add: strings_Trim_def)
qed

text \<open>
  A trimmed builder that is a word without spaces is one of the tokens written to the
  builder.
\<close>

lemma trim_builder_token:
  assumes "\<forall>t \<in> set ts. CHR '' '' \<notin> set t"
    and "strings_Trim (builder ts) '' '' = word"
    and "word \<noteq> []" and "CHR '' '' \<notin> set word"
  shows "word \<in> set ts"
  using assms
proof (induction ts)
  case Nil
  then show ?case by (simp add: builder_def strings_Trim_def)
next
  case (Cons t ts)
  let ?sp = "\<lambda>c. c \<in> set '' ''"
  show ?case
  proof (cases "t = []")
    case True
    then have "strings_Trim (builder (t # ts)) '' '' = strings_Trim (builder ts) '' ''"
      by (simp add: builder_Cons strings_Trim_def)
    with Cons show ?thesis by simp
  next
    case False
    from Cons.prems(1) have tfree: "CHR '' '' \<notin> set t" by simp
    from False tfree have h: "hd t \<noteq> CHR '' ''" "last t \<noteq> CHR '' ''"
      by (metis hd_in_set, metis last_in_set)
    from False h have front: "dropWhile ?sp (builder (t # ts)) = builder (t # ts)"
      by (cases t) (simp_all add: builder_Cons)
    have rv: "rev (builder (t # ts)) = rev (builder ts) @ CHR '' '' # rev t"
      by (simp add: builder_Cons)
    show ?thesis
    proof (cases "\<forall>c \<in> set (builder ts). c = CHR '' ''")
      case True
      then have "\<And>c. c \<in> set (rev (builder ts)) \<Longrightarrow> ?sp c" by simp
      then have "dropWhile ?sp (rev (builder ts) @ CHR '' '' # rev t)
                 = dropWhile ?sp (CHR '' '' # rev t)"
        by (rule dropWhile_append2)
      also have "\<dots> = dropWhile ?sp (rev t)" by simp
      also have "\<dots> = rev t"
        using \<open>t \<noteq> []\<close> h by (simp add: dropWhile_eq_self_iff hd_rev)
      finally have "dropWhile ?sp (rev (builder (t # ts))) = rev t"
        by (simp only: rv)
      then have "strings_Trim (builder (t # ts)) '' '' = t"
        by (simp only: strings_Trim_def front rev_rev_ident)
      with Cons.prems(2) show ?thesis by simp
    next
      case False
      then obtain c where c: "c \<in> set (rev (builder ts))" "\<not> ?sp c" by auto
      then have "dropWhile ?sp (rev (builder ts) @ CHR '' '' # rev t)
                 = dropWhile ?sp (rev (builder ts)) @ CHR '' '' # rev t"
        by (rule dropWhile_append1)
      then have "dropWhile ?sp (rev (builder (t # ts)))
                 = dropWhile ?sp (rev (builder ts)) @ CHR '' '' # rev t"
        by (simp only: rv)
      then have "strings_Trim (builder (t # ts)) '' ''
                 = rev (dropWhile ?sp (rev (builder ts)) @ CHR '' '' # rev t)"
        by (simp only: strings_Trim_def front)
      then have "strings_Trim (builder (t # ts)) '' ''
                 = t @ CHR '' '' # rev (dropWhile ?sp (rev (builder ts)))"
        by simp
      with Cons.prems(2) have "CHR '' '' \<in> set word" by auto
      with Cons.prems(4) show ?thesis by simp
    qed
  qed
qed

subsection \<open>Counting connectors and expressions\<close>

lemma ToUpper_connector_values:
  "strings_ToUpper ''AND'' = ''AND''" "strings_ToUpper ''OR'' = ''OR''"
  "strings_ToUpper ''and'' = ''AND''" "strings_ToUpper ''or'' = ''OR''"
  by (simp_all add: strings_ToUpper_def upper_char_def)

lemma ToUpper_connector: "is_connector part \<Longrightarrow> is_operator_part (strings_ToUpper part)"
  unfolding is_connector_def is_operator_part_def
  by (elim disjE) (simp_all only: ToUpper_connector_values simp_thms)

lemma operator_part_connector: "is_operator_part p \<Longrightarrow> is_connector p"
  by (auto simp: is_connector_def is_operator_part_def)

lemma trim_builder_not_operator:
  assumes "\<forall>t \<in> set ts. CHR '' '' \<notin> set t \<and> \<not> is_connector t"
  shows "\<not> is_operator_part (strings_Trim (builder ts) '' '')"
proof
  assume a: "is_operator_part (strings_Trim (builder ts) '' '')"
  let ?w = "strings_Trim (builder ts) '' ''"
  from a have "?w \<noteq> []" "CHR '' '' \<notin> set ?w"
    by (auto simp: is_operator_part_def)
  with assms have "?w \<in> set ts" by (intro trim_builder_token) auto
  with assms a show False by (auto dest: operator_part_connector)
qed

lemma splitLoop_counts:
  assumes "\<forall>t \<in> set toks. CHR '' '' \<notin> set t"
    and "\<forall>t \<in> set ts. CHR '' '' \<notin> set t \<and> \<not> is_connector t"
    and "splitLoop toks parts (builder ts) = (parts', pb')"
  shows "\<exists>ts'. pb' = builder ts' \<and>
           (\<forall>t \<in> set ts'. CHR '' '' \<notin> set t \<and> \<not> is_connector t) \<and>
           length (filter is_operator_part parts') =
             length (filter is_operator_part parts) + length (filter is_connector toks) \<and>
           length (filter (\<lambda>p. \<not> is_operator_part p) parts') =
             length (filter (\<lambda>p. \<not> is_operator_part p) parts) + length (filter is_connector toks) \<and>
           (ts' = []) = (if toks = [] then ts = [] else is_connector (last toks))"
  using assms
proof (induction toks arbitrary: parts ts)
  case Nil
  then show ?case by auto
next
  case (Cons part toks)
  show ?case
  proof (cases "is_connector part")
    case True
    let ?parts = "parts @ [strings_Trim (builder ts) '' '', strings_ToUpper part]"
    from Cons.prems(3) True have run: "splitLoop toks ?parts (builder []) = (parts', pb')"
      by (simp add: builder_Nil)
    from Cons.prems(1) have toks: "\<forall>t \<in> set toks. CHR '' '' \<notin> set t" by simp
    have emp: "\<forall>t \<in> set ([] :: string list). CHR '' '' \<notin> set t \<and> \<not> is_connector t" by simp
    from Cons.IH [OF toks emp run] obtain ts' where ts':
      "pb' = builder ts'" "\<forall>t \<in> set ts'. CHR '' '' \<notin> set t \<and> \<not> is_connector t"
      "length (filter is_operator_part parts') =
         length (filter is_operator_part ?parts) + length (filter is_connector toks)"
      "length (filter (\<lambda>p. \<not> is_operator_part p) parts') =
         length (filter (\<lambda>p. \<not> is_operator_part p) ?parts) + length (filter is_connector toks)"
      "(ts' = []) = (if toks = [] then ([] :: string list) = [] else is_connector (last toks))"
      by blast
    note n1 = trim_builder_not_operator [OF Cons.prems(2)]
    note n2 = ToUpper_connector [OF True]
    from ts' n1 n2 True show ?thesis by auto
  next
    case False
    from Cons.prems(3) False
    have run: "splitLoop toks parts (builder (ts @ [part])) = (parts', pb')"
      by (simp add: builder_snoc)
    from Cons.prems(1) have toks: "\<forall>t \<in> set toks. CHR '' '' \<notin> set t" by simp
    from Cons.prems(1,2) False
    have ts: "\<forall>t \<in> set (ts @ [part]). CHR '' '' \<notin> set t \<and> \<not> is_connector t" by simp
    from Cons.IH [OF toks ts run] obtain ts' where ts':
      "pb' = builder ts'" "\<forall>t \<in> set ts'. CHR '' '' \<notin> set t \<and> \<not> is_connector t"
      "length (filter is_operator_part parts') =
         length (filter is_operator_part parts) + length (filter is_connector toks)"
      "length (filter (\<lambda>p. \<not> is_operator_part p) parts') =
         length (filter (\<lambda>p. \<not> is_operator_part p) parts) + length (filter is_connector toks)"
      "(ts' = []) = (if toks = [] then ts @ [part] = [] else is_connector (last toks))"
      by blast
    from ts' False show ?thesis by auto
  qed
qed

lemma parseLoop_counts:
  "parseLoop ps f = Inr f' \<Longrightarrow>
   length (operators f') = length (operators f) + length (filter is_operator_part ps) \<and>
   length (expressions f') =
     length (expressions f) + length (filter (\<lambda>p. \<not> is_operator_part p) ps)"
proof (induction ps arbitrary: f)
  case Nil
  then show ?case by simp
next
  case (Cons p ps)
  show ?case
  proof (cases "is_operator_part p")
    case True
    with Cons.prems have "parseLoop ps (f \<lparr> operators := operators f @ [p] \<rparr>) = Inr f'"
      by (simp add: is_operator_part_def)
    from Cons.IH [OF this] True show ?thesis by simp
  next
    case False
    with Cons.prems obtain g1 g2 g3 where
      "parseLoop ps (f \<lparr> expressions := expressions f @
                        [\<lparr> column = strings_Trim g1 ([CHR 0x22] @ ''[]''), operator = g2,
                           val = strings_Trim g3 [CHR 0x27] \<rparr>] \<rparr>) = Inr f'"
      by (auto simp: is_operator_part_def split: option.splits)
    from Cons.IH [OF this] False show ?thesis by simp
  qed
qed

text \<open>
  The counts of a filter that \<open>parseFilter\<close> returns for a non-empty input: as many
  connectors as the input has connector tokens, and one expression per connector token,
  with one more if the last token is not a connector.
\<close>

lemma parseFilter_counts:
  assumes ne: "queryFilter \<noteq> []" and ok: "parseFilter queryFilter = Inr f"
  shows "length (operators f) = length (filter is_connector (strings_Split queryFilter (CHR '' ''))) \<and>
         length (expressions f) =
           length (filter is_connector (strings_Split queryFilter (CHR '' ''))) +
           (if is_connector (last (strings_Split queryFilter (CHR '' ''))) then 0 else 1)"
proof -
  let ?toks = "strings_Split queryFilter (CHR '' '')"
  obtain parts pb where sl: "splitLoop ?toks [] (builder []) = (parts, pb)"
    by (cases "splitLoop ?toks [] (builder [])")
  have toks: "\<forall>t \<in> set ?toks. CHR '' '' \<notin> set t"
    by (auto dest: strings_Split_sep_free)
  have emp: "\<forall>t \<in> set ([] :: string list). CHR '' '' \<notin> set t \<and> \<not> is_connector t" by simp
  from splitLoop_counts [OF toks emp sl] strings_Split_not_Nil [of queryFilter "CHR '' ''"]
  obtain ts' where ts': "pb = builder ts'"
    "\<forall>t \<in> set ts'. CHR '' '' \<notin> set t \<and> \<not> is_connector t"
    "length (filter is_operator_part parts) = length (filter is_connector ?toks)"
    "length (filter (\<lambda>p. \<not> is_operator_part p) parts) = length (filter is_connector ?toks)"
    "(ts' = []) = is_connector (last ?toks)"
    by auto
  let ?out = "if length pb > 0 then parts @ [strings_Trim pb '' ''] else parts"
  from sl have se: "splitExpressions queryFilter = ?out"
    by (simp add: splitExpressions_def builder_Nil)
  from ne ok se have pl: "parseLoop ?out \<lparr> expressions = [], operators = [] \<rparr> = Inr f"
    by (simp add: parseFilter_def)
  note c = parseLoop_counts [OF pl]
  show ?thesis
  proof (cases "is_connector (last ?toks)")
    case True
    with ts' have "pb = []" by (simp add: builder_Nil)
    with c ts' True show ?thesis by simp
  next
    case False
    with ts' have "pb \<noteq> []" by (simp add: builder_eq_Nil)
    moreover have "\<not> is_operator_part (strings_Trim pb '' '')"
      unfolding ts'(1) by (rule trim_builder_not_operator [OF ts'(2)])
    ultimately show ?thesis using c ts' False by simp
  qed
qed

subsection \<open>Rendering\<close>

lemma weave_not_Nil: "xs \<noteq> [] \<Longrightarrow> weave xs ys \<noteq> []"
  by (cases xs; cases ys) simp_all

lemma strings_Join_Cons:
  "ys \<noteq> [] \<Longrightarrow> strings_Join (x # ys) sep = x @ sep @ strings_Join ys sep"
  by (cases ys) simp_all

lemma interleave_weave:
  "length ops + 1 = length es \<Longrightarrow>
   interleave es ops = strings_Join (weave (map expression_String es) ops) '' '' \<and>
   last (weave (map expression_String es) ops) = expression_String (last es)"
proof (induction es ops rule: interleave.induct)
  case 1
  then show ?case by simp
next
  case (2 e es)
  then show ?case by simp
next
  case (3 opr ops)
  then show ?case by simp
next
  case (4 e es opr ops)
  then have len: "length ops + 1 = length es" by simp
  then have ne: "es \<noteq> []" by auto
  then have w: "weave (map expression_String es) ops \<noteq> []"
    by (simp add: weave_not_Nil)
  from "4.IH" [OF len] ne w show ?case
    by (simp add: strings_Join_Cons)
qed

subsection \<open>Claims about the filter parser\<close>

lemmas filter_eval =
  parseFilter_def splitExpressions_def strings_Trim_def strings_ToUpper_def upper_char_def
  is_connector_def matchTail_def matchOperator_def matchValue_def is_ident_char_def
  is_op_char_def filter_String_def expression_String_def quoter_ID_def quoter_Value_def
  replace_char_def

text \<open>
  Claim C5.  \<open>parseFilter\<close> succeeds on \<open>column = 'value'\<close> and the filter renders as
  \<open>( [column] = 'value' )\<close>; it succeeds on
  \<open>column = 'value' AND column2 = 'value2' OR column3 = 'value3'\<close> and the filter renders
  as the three atoms in order with \<open>AND\<close> and then \<open>OR\<close> between them (a connector typed
  in lower case comes out in upper case); on the empty string it succeeds with the empty
  filter, which renders as \<open>1=1\<close>.
\<close>

theorem parseFilter_examples:
  "parseFilter (''column = '' @ [CHR 0x27] @ ''value'' @ [CHR 0x27])
     = Inr \<lparr> expressions = [\<lparr> column = ''column'', operator = ''='', val = ''value'' \<rparr>],
             operators = [] \<rparr> \<and>
   filter_String \<lparr> expressions = [\<lparr> column = ''column'', operator = ''='', val = ''value'' \<rparr>],
                   operators = [] \<rparr>
     = ''( [column] = '' @ [CHR 0x27] @ ''value'' @ [CHR 0x27] @ '' )'' \<and>
   parseFilter (''column = '' @ [CHR 0x27] @ ''value'' @ [CHR 0x27] @ '' AND column2 = '' @
                [CHR 0x27] @ ''value2'' @ [CHR 0x27] @ '' OR column3 = '' @
                [CHR 0x27] @ ''value3'' @ [CHR 0x27])
     = Inr \<lparr> expressions = [\<lparr> column = ''column'', operator = ''='', val = ''value'' \<rparr>,
                            \<lparr> column = ''column2'', operator = ''='', val = ''value2'' \<rparr>,
                            \<lparr> column = ''column3'', operator = ''='', val = ''value3'' \<rparr>],
             operators = [''AND'', ''OR''] \<rparr> \<and>
   filter_String \<lparr> expressions = [\<lparr> column = ''column'', operator = ''='', val = ''value'' \<rparr>,
                            \<lparr> column = ''column2'', operator = ''='', val = ''value2'' \<rparr>,
                            \<lparr> column = ''column3'', operator = ''='', val = ''value3'' \<rparr>],
                   operators = [''AND'', ''OR''] \<rparr>
     = ''( [column] = '' @ [CHR 0x27] @ ''value'' @ [CHR 0x27] @ '' ) AND ( [column2] = '' @
       [CHR 0x27] @ ''value2'' @ [CHR 0x27] @ '' ) OR ( [column3] = '' @
       [CHR 0x27] @ ''value3'' @ [CHR 0x27] @ '' )'' \<and>
   parseFilter ''a = 1 and b = 2''
     = Inr \<lparr> expressions = [\<lparr> column = ''a'', operator = ''='', val = ''1'' \<rparr>,
                            \<lparr> column = ''b'', operator = ''='', val = ''2'' \<rparr>],
             operators = [''AND''] \<rparr> \<and>
   parseFilter [] = Inr \<lparr> expressions = [], operators = [] \<rparr> \<and>
   filter_String \<lparr> expressions = [], operators = [] \<rparr> = ''1=1''"
proof (intro conjI)
  show "parseFilter (''column = '' @ [CHR 0x27] @ ''value'' @ [CHR 0x27])
     = Inr \<lparr> expressions = [\<lparr> column = ''column'', operator = ''='', val = ''value'' \<rparr>],
             operators = [] \<rparr>"
    by (simp add: filter_eval)
  show "filter_String \<lparr> expressions = [\<lparr> column = ''column'', operator = ''='', val = ''value'' \<rparr>],
                   operators = [] \<rparr>
     = ''( [column] = '' @ [CHR 0x27] @ ''value'' @ [CHR 0x27] @ '' )''"
    by (simp add: filter_eval)
  show "parseFilter (''column = '' @ [CHR 0x27] @ ''value'' @ [CHR 0x27] @ '' AND column2 = '' @
                [CHR 0x27] @ ''value2'' @ [CHR 0x27] @ '' OR column3 = '' @
                [CHR 0x27] @ ''value3'' @ [CHR 0x27])
     = Inr \<lparr> expressions = [\<lparr> column = ''column'', operator = ''='', val = ''value'' \<rparr>,
                            \<lparr> column = ''column2'', operator = ''='', val = ''value2'' \<rparr>,
                            \<lparr> column = ''column3'', operator = ''='', val = ''value3'' \<rparr>],
             operators = [''AND'', ''OR''] \<rparr>"
    by (simp add: filter_eval)
  show "filter_String \<lparr> expressions = [\<lparr> column = ''column'', operator = ''='', val = ''value'' \<rparr>,
                            \<lparr> column = ''column2'', operator = ''='', val = ''value2'' \<rparr>,
                            \<lparr> column = ''column3'', operator = ''='', val = ''value3'' \<rparr>],
                   operators = [''AND'', ''OR''] \<rparr>
     = ''( [column] = '' @ [CHR 0x27] @ ''value'' @ [CHR 0x27] @ '' ) AND ( [column2] = '' @
       [CHR 0x27] @ ''value2'' @ [CHR 0x27] @ '' ) OR ( [column3] = '' @
       [CHR 0x27] @ ''value3'' @ [CHR 0x27] @ '' )''"
    by (simp add: filter_eval)
  show "parseFilter ''a = 1 and b = 2''
     = Inr \<lparr> expressions = [\<lparr> column = ''a'', operator = ''='', val = ''1'' \<rparr>,
                            \<lparr> column = ''b'', operator = ''='', val = ''2'' \<rparr>],
             operators = [''AND''] \<rparr>"
    by (simp add: filter_eval)
  show "parseFilter [] = Inr \<lparr> expressions = [], operators = [] \<rparr>"
    by (simp add: parseFilter_def)
  show "filter_String \<lparr> expressions = [], operators = [] \<rparr> = ''1=1''"
    by (simp add: filter_String_def)
qed

text \<open>
  Claim C6, as stated (for every non-empty input on which \<open>parseFilter\<close> succeeds), fails:
  an input that ends with a connector is accepted, with as many connectors as
  expressions, and the rendering ends with the connector and a space.
\<close>

theorem parseFilter_trailing_connector_counterexample:
  "parseFilter ''a = 1 AND''
     = Inr \<lparr> expressions = [\<lparr> column = ''a'', operator = ''='', val = ''1'' \<rparr>],
             operators = [''AND''] \<rparr> \<and>
   length (operators \<lparr> expressions = [\<lparr> column = ''a'', operator = ''='', val = ''1'' \<rparr>],
                       operators = [''AND''] \<rparr>)
     \<noteq> length (expressions \<lparr> expressions = [\<lparr> column = ''a'', operator = ''='', val = ''1'' \<rparr>],
                              operators = [''AND''] \<rparr>) - 1 \<and>
   filter_String \<lparr> expressions = [\<lparr> column = ''a'', operator = ''='', val = ''1'' \<rparr>],
                   operators = [''AND''] \<rparr>
     = ''( [a] = '' @ [CHR 0x27] @ ''1'' @ [CHR 0x27] @ '' ) AND ''"
proof (intro conjI)
  show "parseFilter ''a = 1 AND''
     = Inr \<lparr> expressions = [\<lparr> column = ''a'', operator = ''='', val = ''1'' \<rparr>],
             operators = [''AND''] \<rparr>"
    by (simp add: filter_eval)
  show "length (operators \<lparr> expressions = [\<lparr> column = ''a'', operator = ''='', val = ''1'' \<rparr>],
                       operators = [''AND''] \<rparr>)
     \<noteq> length (expressions \<lparr> expressions = [\<lparr> column = ''a'', operator = ''='', val = ''1'' \<rparr>],
                              operators = [''AND''] \<rparr>) - 1"
    by simp
  show "filter_String \<lparr> expressions = [\<lparr> column = ''a'', operator = ''='', val = ''1'' \<rparr>],
                   operators = [''AND''] \<rparr>
     = ''( [a] = '' @ [CHR 0x27] @ ''1'' @ [CHR 0x27] @ '' ) AND ''"
    by (simp add: filter_eval)
qed

text \<open>
  Claim C6, amended.  For every non-empty input on which \<open>parseFilter\<close> succeeds, the filter
  has at least one expression, and its connector count is its expression count minus
  one exactly when the last space-separated token of the input is not a connector
  (\<open>AND\<close>, \<open>OR\<close>, \<open>and\<close>, \<open>or\<close>); otherwise the two counts are equal.  When the last token
  is not a connector, the rendering is the atoms interleaved with their connectors, in
  order, joined by single spaces, and its last piece is the last atom.
\<close>

theorem parseFilter_connector_count:
  assumes "queryFilter \<noteq> []" and "parseFilter queryFilter = Inr f"
  shows "expressions f \<noteq> [] \<and>
         (length (operators f) = length (expressions f) - 1)
           = (\<not> is_connector (last (strings_Split queryFilter (CHR '' '')))) \<and>
         (is_connector (last (strings_Split queryFilter (CHR '' ''))) \<longrightarrow>
            length (operators f) = length (expressions f)) \<and>
         (\<not> is_connector (last (strings_Split queryFilter (CHR '' ''))) \<longrightarrow>
            filter_String f =
              strings_Join (weave (map expression_String (expressions f)) (operators f)) '' '' \<and>
            last (weave (map expression_String (expressions f)) (operators f))
              = expression_String (last (expressions f)))"
proof -
  let ?toks = "strings_Split queryFilter (CHR '' '')"
  let ?k = "length (filter is_connector ?toks)"
  note c = parseFilter_counts [OF assms]
  have toks: "?toks \<noteq> []" by (rule strings_Split_not_Nil)
  have ne: "expressions f \<noteq> []"
  proof (cases "is_connector (last ?toks)")
    case True
    with toks have "last ?toks \<in> set (filter is_connector ?toks)" by simp
    then have "0 < ?k" by (rule length_pos_if_in_set)
    with c True show ?thesis by auto
  next
    case False
    with c show ?thesis by auto
  qed
  then have pos: "0 < length (expressions f)" by simp
  show ?thesis
  proof (cases "is_connector (last ?toks)")
    case True
    with c have eq: "length (operators f) = length (expressions f)" by simp
    with pos have "length (operators f) \<noteq> length (expressions f) - 1" by arith
    with eq ne True show ?thesis by simp
  next
    case False
    with c have len: "length (operators f) + 1 = length (expressions f)" by simp
    from interleave_weave [OF len] ne False len show ?thesis
      by (simp add: filter_String_def)
  qed
qed

theorem parseFilter_connector_count_witness:
  "''a = 1 and b <> 2'' \<noteq> [] \<and>
   parseFilter ''a = 1 and b <> 2''
     = Inr \<lparr> expressions = [\<lparr> column = ''a'', operator = ''='', val = ''1'' \<rparr>,
                            \<lparr> column = ''b'', operator = ''<>'', val = ''2'' \<rparr>],
             operators = [''AND''] \<rparr> \<and>
   \<not> is_connector (last (strings_Split ''a = 1 and b <> 2'' (CHR '' ''))) \<and>
   filter_String \<lparr> expressions = [\<lparr> column = ''a'', operator = ''='', val = ''1'' \<rparr>,
                            \<lparr> column = ''b'', operator = ''<>'', val = ''2'' \<rparr>],
                   operators = [''AND''] \<rparr>
     = strings_Join [''( [a] = '' @ [CHR 0x27] @ ''1'' @ [CHR 0x27] @ '' )'', ''AND'',
                     ''( [b] <> '' @ [CHR 0x27] @ ''2'' @ [CHR 0x27] @ '' )''] '' ''"
proof -
  let ?f = "\<lparr> expressions = [\<lparr> column = ''a'', operator = ''='', val = ''1'' \<rparr>,
                            \<lparr> column = ''b'', operator = ''<>'', val = ''2'' \<rparr>],
             operators = [''AND''] \<rparr>"
  have ne: "''a = 1 and b <> 2'' \<noteq> []" by simp
  have ok: "parseFilter ''a = 1 and b <> 2'' = Inr ?f"
    by (simp add: filter_eval)
  have lt: "\<not> is_connector (last (strings_Split ''a = 1 and b <> 2'' (CHR '' '')))"
    by (simp add: is_connector_def)
  from parseFilter_connector_count [OF ne ok] lt
  have "filter_String ?f =
          strings_Join (weave (map expression_String (expressions ?f)) (operators ?f)) '' ''"
    by blast
  then have "filter_String ?f
     = strings_Join [''( [a] = '' @ [CHR 0x27] @ ''1'' @ [CHR 0x27] @ '' )'', ''AND'',
                     ''( [b] <> '' @ [CHR 0x27] @ ''2'' @ [CHR 0x27] @ '' )''] '' ''"
    by (simp add: expression_String_def quoter_ID_def quoter_Value_def replace_char_def
          strings_ToUpper_def upper_char_def)
  with ne ok lt show ?thesis by (intro conjI)
qed

end
